theory Spec2Isabelle
  imports Main "HOL-Library.Word"
begin

unbundle bit_operations_syntax

section \<open>Raw bytes of an \<open>.eh_frame\<close> region\<close>

text \<open>
  The embedding follows \<^verbatim>\<open>src/debuginfo.cpp\<close> in the configuration in which its
  unwind-table builder is compiled: Linux or FreeBSD on a 64-bit little-endian CPU
  (\<^verbatim>\<open>uintptr_t\<close>, \<^verbatim>\<open>size_t\<close> and \<^verbatim>\<open>void*\<close> are 64 bits wide).

  The functions of the frame-information decoder receive a pointer \<^verbatim>\<open>Addr\<close> and a
  byte count. The bytes of that region are a list; a pointer into the region is its
  offset from the first byte, a natural number. A read that leaves the list is the
  error \<open>OutOfBounds\<close> (the C code would read whatever follows the region), a failed
  \<^verbatim>\<open>assert\<close> is the error \<open>AssertionFailed\<close>, and a read through a pointer to an object
  that has been deleted is the error \<open>DanglingPointer\<close>.
\<close>

type_synonym byte = "8 word"

datatype error = AssertionFailed | OutOfBounds | DanglingPointer

fun le_nat :: "byte list \<Rightarrow> nat" where
  "le_nat [] = 0"
| "le_nat (b # bs) = unat b + 256 * le_nat bs"

definition load_le :: "nat \<Rightarrow> byte list \<Rightarrow> nat \<Rightarrow> nat option" where
  \<comment> \<open>the unsigned value of the \<open>n\<close> bytes at offset \<open>p\<close>, least significant byte first\<close>
  "load_le n mem p = (if p + n \<le> length mem then Some (le_nat (take n (drop p mem))) else None)"

definition read_u8 :: "byte list \<Rightarrow> nat \<Rightarrow> byte option" where
  "read_u8 mem p = (if p < length mem then Some (mem ! p) else None)"

definition read_u32 :: "byte list \<Rightarrow> nat \<Rightarrow> 32 word option" where
  "read_u32 mem p = map_option of_nat (load_le 4 mem p)"

text \<open>The bytes a producer writes for an \<open>n\<close>-byte little-endian field of value \<open>v\<close>.\<close>

fun le_bytes :: "nat \<Rightarrow> nat \<Rightarrow> byte list" where
  "le_bytes 0 v = []"
| "le_bytes (Suc n) v = of_nat (v mod 256) # le_bytes n (v div 256)"

section \<open>Walking the records: \<open>processFDEs\<close>\<close>

text \<open>
  \<^verbatim>\<open>processFDEs(EHFrameAddr, EHFrameSize, f)\<close> is a \<^verbatim>\<open>do ... while (P != End)\<close> loop.
  The visitor \<open>f\<close> is a lambda that captures its caller's variables by reference:
  here it takes the state it works on and returns the new one, or an error.
\<close>

function processFDEs_loop ::
  "byte list \<Rightarrow> nat \<Rightarrow> (nat \<Rightarrow> 's \<Rightarrow> error + 's) \<Rightarrow> nat \<Rightarrow> 's \<Rightarrow> error + 's" where
  "processFDEs_loop mem End f P s =
     (let Entry = P; P1 = P + 4 in
      if \<not> P1 \<le> End then Inl AssertionFailed
      else (case read_u32 mem Entry of
        None \<Rightarrow> Inl OutOfBounds
      | Some Length \<Rightarrow>
          if Length = 0 then Inr s
          else if \<not> P1 + unat Length \<le> End then Inl AssertionFailed
          else (case read_u32 mem P1 of
            None \<Rightarrow> Inl OutOfBounds
          | Some Offset \<Rightarrow>
              (case (if Offset \<noteq> 0 then f Entry s else Inr s) of
                Inl e \<Rightarrow> Inl e
              | Inr s' \<Rightarrow>
                  (let P2 = P1 + unat Length in
                   if P2 \<noteq> End then processFDEs_loop mem End f P2 s' else Inr s')))))"
  by pat_completeness auto
termination
  by (relation "measure (\<lambda>(mem, End, f, P, s). End - P)") (auto simp: unat_gt_0)

declare processFDEs_loop.simps [simp del]

definition processFDEs ::
  "byte list \<Rightarrow> nat \<Rightarrow> (nat \<Rightarrow> 's \<Rightarrow> error + 's) \<Rightarrow> 's \<Rightarrow> error + 's" where
  "processFDEs mem EHFrameSize f s = processFDEs_loop mem EHFrameSize f 0 s"

text \<open>
  What a producer lays out: a record is its 4-byte length, its 4-byte CIE-id or
  CIE-pointer field and the rest of its bytes; the length counts what follows the
  length field. \<open>fde_entries\<close> lists the offsets of the records whose second field is
  not zero, and \<open>visit_all\<close> runs a visitor over a list of offsets, in order.
\<close>

type_synonym cfi_record = "32 word \<times> byte list"

definition encode_record :: "cfi_record \<Rightarrow> byte list" where
  "encode_record r = le_bytes 4 (4 + length (snd r)) @ le_bytes 4 (unat (fst r)) @ snd r"

fun fde_entries :: "nat \<Rightarrow> cfi_record list \<Rightarrow> nat list" where
  "fde_entries off [] = []"
| "fde_entries off (r # rs) =
     (if fst r \<noteq> 0 then [off] else []) @ fde_entries (off + length (encode_record r)) rs"

fun visit_all :: "(nat \<Rightarrow> 's \<Rightarrow> error + 's) \<Rightarrow> nat list \<Rightarrow> 's \<Rightarrow> error + 's" where
  "visit_all f [] s = Inr s"
| "visit_all f (e # es) s = (case f e s of Inl x \<Rightarrow> Inl x | Inr s' \<Rightarrow> visit_all f es s')"

section \<open>LEB128: \<open>consume_leb128\<close> and \<open>parse_leb128\<close>\<close>

text \<open>
  \<^verbatim>\<open>while ((*P >> 7) != 0 && P < End) ++P; return P + 1;\<close>
  The byte at \<open>P\<close> is read before \<open>P < End\<close> is tested.
\<close>

function consume_leb128_loop :: "byte list \<Rightarrow> nat \<Rightarrow> nat \<Rightarrow> error + nat" where
  "consume_leb128_loop mem End P =
     (case read_u8 mem P of
        None \<Rightarrow> Inl OutOfBounds
      | Some b \<Rightarrow>
          if drop_bit 7 b \<noteq> 0 \<and> P < End then consume_leb128_loop mem End (P + 1)
          else Inr (P + 1))"
  by pat_completeness auto
termination
  by (relation "measure (\<lambda>(mem, End, P). End - P)") auto

declare consume_leb128_loop.simps [simp del]

definition consume_leb128 :: "byte list \<Rightarrow> nat \<Rightarrow> nat \<Rightarrow> error + nat" where
  "consume_leb128 mem Addr End = consume_leb128_loop mem End Addr"

text \<open>
  \<^verbatim>\<open>parse_leb128<T>(Addr, End)\<close> is instantiated with \<^verbatim>\<open>uintptr_t\<close> and
  \<^verbatim>\<open>intptr_t\<close> only, both 64 bits wide here; \<open>is_signed\<close> is \<^verbatim>\<open>std::is_signed<T>::value\<close>.
  The result is the value and the pointer behind the bytes read (\<^verbatim>\<open>Addr\<close> is passed
  by reference). The loop runs while \<open>i < (sizeof(T) * 8 - 1) / 7 + 1\<close>.
\<close>

function parse_leb128_loop ::
  "bool \<Rightarrow> byte list \<Rightarrow> nat \<Rightarrow> nat \<Rightarrow> nat \<Rightarrow> 64 word \<Rightarrow> error + (64 word \<times> nat)" where
  "parse_leb128_loop is_signed mem End i Addr v =
     (if i < (8 * 8 - 1) div 7 + 1 then
        (case read_u8 mem Addr of
           None \<Rightarrow> Inl OutOfBounds
         | Some a \<Rightarrow>
             (let Addr1 = Addr + 1;
                  v1 = v OR push_bit (i * 7) (ucast (a AND 0x7f))
              in if a AND 0x80 = 0 \<or> Addr1 \<ge> End then
                   (if a AND 0x40 \<noteq> 0 \<and> is_signed then
                      (let valid_bits = (i + 1) * 7
                       in if valid_bits < 64 then Inr (v1 OR - (push_bit valid_bits 1), Addr1)
                          else Inr (v1, Addr1))
                    else Inr (v1, Addr1))
                 else parse_leb128_loop is_signed mem End (i + 1) Addr1 v1))
      else (case consume_leb128 mem Addr End of
              Inl e \<Rightarrow> Inl e
            | Inr P \<Rightarrow> Inr (v, P)))"
  by pat_completeness auto
termination
  by (relation "measure (\<lambda>(is_signed, mem, End, i, Addr, v). 10 - i)") auto

declare parse_leb128_loop.simps [simp del]

definition parse_leb128 :: "bool \<Rightarrow> byte list \<Rightarrow> nat \<Rightarrow> nat \<Rightarrow> error + (64 word \<times> nat)" where
  "parse_leb128 is_signed mem Addr End = parse_leb128_loop is_signed mem End 0 Addr 0"

text \<open>
  The bytes the decoder takes its value from, said without the loop: starting at the
  first byte, up to and including the first byte whose bit \<open>0x80\<close> is clear or that
  is the last one before \<open>End\<close> (\<open>room\<close> is the number of bytes before \<open>End\<close>), but
  never more than \<open>cap\<close> bytes. The payload of such a list is the number whose
  base-128 digits, least significant first, are the low seven bits of the bytes.
\<close>

fun leb128_groups :: "nat \<Rightarrow> nat \<Rightarrow> byte list \<Rightarrow> byte list" where
  "leb128_groups 0 room bs = []"
| "leb128_groups (Suc cap) room [] = []"
| "leb128_groups (Suc cap) room (b # bs) =
     (if b AND 0x80 = 0 \<or> room \<le> 1 then [b] else b # leb128_groups cap (room - 1) bs)"

fun leb128_payload :: "byte list \<Rightarrow> nat" where
  "leb128_payload [] = 0"
| "leb128_payload (b # bs) = unat (b AND 0x7f) + 128 * leb128_payload bs"

section \<open>The address encoding of a CIE: \<open>parseCIE\<close>\<close>

text \<open>The values of \<^verbatim>\<open>enum DW_EH_PE : uint8_t\<close> that the code names.\<close>

definition DW_EH_PE_absptr :: byte where "DW_EH_PE_absptr = 0x00"
definition DW_EH_PE_omit :: byte where "DW_EH_PE_omit = 0xff"
definition DW_EH_PE_uleb128 :: byte where "DW_EH_PE_uleb128 = 0x01"
definition DW_EH_PE_udata2 :: byte where "DW_EH_PE_udata2 = 0x02"
definition DW_EH_PE_udata4 :: byte where "DW_EH_PE_udata4 = 0x03"
definition DW_EH_PE_udata8 :: byte where "DW_EH_PE_udata8 = 0x04"
definition DW_EH_PE_signed :: byte where "DW_EH_PE_signed = 0x08"
definition DW_EH_PE_sleb128 :: byte where "DW_EH_PE_sleb128 = 0x09"
definition DW_EH_PE_sdata2 :: byte where "DW_EH_PE_sdata2 = 0x0a"
definition DW_EH_PE_sdata4 :: byte where "DW_EH_PE_sdata4 = 0x0b"
definition DW_EH_PE_sdata8 :: byte where "DW_EH_PE_sdata8 = 0x0c"
definition DW_EH_PE_pcrel :: byte where "DW_EH_PE_pcrel = 0x10"

text \<open>\<^verbatim>\<open>strlen\<close>: the number of bytes before the first zero byte.\<close>

function strlen_from :: "byte list \<Rightarrow> nat \<Rightarrow> nat \<Rightarrow> error + nat" where
  "strlen_from mem p n =
     (case read_u8 mem (p + n) of
        None \<Rightarrow> Inl OutOfBounds
      | Some c \<Rightarrow> if c = 0 then Inr n else strlen_from mem p (n + 1))"
  by pat_completeness auto
termination
  by (relation "measure (\<lambda>(mem, p, n). length mem - (p + n))")
     (auto simp: read_u8_def split: if_splits)

declare strlen_from.simps [simp del]

definition strlen :: "byte list \<Rightarrow> nat \<Rightarrow> error + nat" where
  "strlen mem p = strlen_from mem p 0"

text \<open>
  The inner \<^verbatim>\<open>switch (encoding & 0xf)\<close> of case \<^verbatim>\<open>'P'\<close>: skip the personality
  function pointer that follows the encoding byte.
\<close>

definition skip_personality :: "byte list \<Rightarrow> nat \<Rightarrow> byte \<Rightarrow> nat \<Rightarrow> error + nat" where
  "skip_personality mem cie_end encoding p =
     (let fmt = encoding AND 0xf in
      if fmt = DW_EH_PE_uleb128 \<or> fmt = DW_EH_PE_sleb128 then consume_leb128 mem p cie_end
      else if fmt = DW_EH_PE_udata2 \<or> fmt = DW_EH_PE_sdata2 then Inr (p + 2)
      else if fmt = DW_EH_PE_udata4 \<or> fmt = DW_EH_PE_sdata4 then Inr (p + 4)
      else if fmt = DW_EH_PE_udata8 \<or> fmt = DW_EH_PE_sdata8 then Inr (p + 8)
      else if fmt = DW_EH_PE_signed then Inr (p + 8)
      else if encoding = DW_EH_PE_absptr \<or> encoding = DW_EH_PE_omit then Inr (p + 8)
      else Inl AssertionFailed)"

text \<open>
  The loop \<^verbatim>\<open>for (const char *augp = augmentation;; augp++)\<close> over the augmentation
  string. Its \<^verbatim>\<open>default: continue;\<close> also takes the terminating zero byte, so the loop
  ends only at an \<^verbatim>\<open>'R'\<close>, at a failed assertion or, here, where the bytes end.
  The characters are \<^verbatim>\<open>'z'\<close> = 0x7a, \<^verbatim>\<open>'L'\<close> = 0x4c, \<^verbatim>\<open>'R'\<close> = 0x52, \<^verbatim>\<open>'P'\<close> = 0x50.
\<close>

function parseCIE_augmentation :: "byte list \<Rightarrow> nat \<Rightarrow> nat \<Rightarrow> nat \<Rightarrow> error + byte" where
  "parseCIE_augmentation mem cie_end augp p =
     (case read_u8 mem augp of
        None \<Rightarrow> Inl OutOfBounds
      | Some c \<Rightarrow>
          if c = 0x7a then
            (case consume_leb128 mem p cie_end of
               Inl e \<Rightarrow> Inl e
             | Inr p' \<Rightarrow>
                 if cie_end \<ge> p' then parseCIE_augmentation mem cie_end (augp + 1) p'
                 else Inl AssertionFailed)
          else if c = 0x4c then
            (if cie_end \<ge> p + 1 then parseCIE_augmentation mem cie_end (augp + 1) (p + 1)
             else Inl AssertionFailed)
          else if c = 0x52 then
            (case read_u8 mem p of None \<Rightarrow> Inl OutOfBounds | Some e \<Rightarrow> Inr e)
          else if c = 0x50 then
            (case read_u8 mem p of
               None \<Rightarrow> Inl OutOfBounds
             | Some encoding \<Rightarrow>
                 (case skip_personality mem cie_end encoding (p + 1) of
                    Inl e \<Rightarrow> Inl e
                  | Inr p' \<Rightarrow>
                      if cie_end \<ge> p' then parseCIE_augmentation mem cie_end (augp + 1) p'
                      else Inl AssertionFailed))
          else parseCIE_augmentation mem cie_end (augp + 1) p)"
  by pat_completeness auto
termination
  by (relation "measure (\<lambda>(mem, cie_end, augp, p). length mem - augp)")
     (auto simp: read_u8_def split: if_splits)

declare parseCIE_augmentation.simps [simp del]

definition parseCIE :: "byte list \<Rightarrow> nat \<Rightarrow> nat \<Rightarrow> error + byte" where
  "parseCIE mem Addr End =
     (case read_u32 mem Addr of
        None \<Rightarrow> Inl OutOfBounds
      | Some cie_size \<Rightarrow>
          (let cie_addr = Addr + 4; cie_end = cie_addr + unat cie_size in
           if \<not> cie_end \<le> End then Inl AssertionFailed
           else (case read_u32 mem cie_addr of
             None \<Rightarrow> Inl OutOfBounds
           | Some cie_id \<Rightarrow>
               if cie_id \<noteq> 0 then Inl AssertionFailed
               else (case read_u8 mem (cie_addr + 4) of
                 None \<Rightarrow> Inl OutOfBounds
               | Some cie_version \<Rightarrow>
                   if \<not> (cie_version = 1 \<or> cie_version = 3) then Inl AssertionFailed
                   else (let augmentation = cie_addr + 5 in
                     case strlen mem augmentation of
                       Inl e \<Rightarrow> Inl e
                     | Inr augmentation_len \<Rightarrow>
                         (let p = augmentation + (augmentation_len + 1) + 1 in
                          if \<not> cie_end \<ge> p then Inl AssertionFailed
                          else (case consume_leb128 mem p cie_end of
                            Inl e \<Rightarrow> Inl e
                          | Inr p1 \<Rightarrow>
                              (case (if cie_version = 1 then Inr (p1 + 1)
                                     else consume_leb128 mem p1 cie_end) of
                                 Inl e \<Rightarrow> Inl e
                               | Inr p2 \<Rightarrow> parseCIE_augmentation mem cie_end augmentation p2))))))))"

section \<open>Start and size of an FDE: the visitor of \<open>register_eh_frames\<close>\<close>

definition read_u16 :: "byte list \<Rightarrow> nat \<Rightarrow> 16 word option" where
  "read_u16 mem p = map_option of_nat (load_le 2 mem p)"

definition read_u64 :: "byte list \<Rightarrow> nat \<Rightarrow> 64 word option" where
  "read_u64 mem p = map_option of_nat (load_le 8 mem p)"

text \<open>
  The first half of the lambda that \<^verbatim>\<open>register_eh_frames\<close> passes to its second
  \<^verbatim>\<open>processFDEs\<close>: from the entry to \<^verbatim>\<open>start\<close> and \<^verbatim>\<open>size\<close>. \<open>Addr\<close> is the address
  of the region (the value of the C pointer \<^verbatim>\<open>Addr\<close>), \<open>Size\<close> its size; \<open>cur_cie\<close> and
  \<open>encoding\<close> are the two captured variables (\<open>None\<close> is \<^verbatim>\<open>nullptr\<close>; a pointer into the
  region is never null). The result is the new \<open>encoding\<close>, \<open>start\<close> and \<open>size\<close>.
  \<^verbatim>\<open>Entry + 4 - cie_id\<close> before the region is a read outside it.
\<close>

definition fde_start_size ::
  "byte list \<Rightarrow> 64 word \<Rightarrow> nat \<Rightarrow> nat option \<Rightarrow> byte \<Rightarrow> nat \<Rightarrow> error + (byte \<times> 64 word \<times> 64 word)" where
  "fde_start_size mem Addr Size cur_cie encoding0 Entry =
     (case read_u32 mem Entry of
        None \<Rightarrow> Inl OutOfBounds
      | Some fde_size \<Rightarrow>
     (case read_u32 mem (Entry + 4) of
        None \<Rightarrow> Inl OutOfBounds
      | Some cie_id \<Rightarrow>
     if Entry + 4 < unat cie_id then Inl OutOfBounds
     else
     (let cie_addr = Entry + 4 - unat cie_id in
      case (if Some cie_addr \<noteq> cur_cie then parseCIE mem cie_addr Size else Inr encoding0) of
        Inl e \<Rightarrow> Inl e
      | Inr encoding \<Rightarrow>
     (let fde_end = Entry + 4 + unat fde_size;
          EntryPtr = Entry + 8
      in
      if encoding = DW_EH_PE_absptr \<or> encoding = DW_EH_PE_omit then
        (if \<not> unat fde_size \<ge> 2 * 8 + 4 then Inl AssertionFailed
         else (case (read_u64 mem EntryPtr, read_u64 mem (EntryPtr + 8)) of
                 (Some start, Some sz) \<Rightarrow> Inr (encoding, start, sz)
               | _ \<Rightarrow> Inl OutOfBounds))
      else
        (let baseptr = Addr + of_nat EntryPtr; fmt = encoding AND 0xf in
         if \<not> encoding AND 0xf0 = 0x10 then Inl AssertionFailed
         else if fmt = DW_EH_PE_uleb128 then
           (case parse_leb128 False mem EntryPtr fde_end of
              Inl e \<Rightarrow> Inl e
            | Inr (v, EntryPtr1) \<Rightarrow>
                (case parse_leb128 False mem EntryPtr1 fde_end of
                   Inl e \<Rightarrow> Inl e
                 | Inr (sz, EntryPtr2) \<Rightarrow> Inr (encoding, baseptr + v, sz)))
         else if fmt = DW_EH_PE_udata2 then
           (if \<not> unat fde_size \<ge> 2 * 2 + 4 then Inl AssertionFailed
            else (case (read_u16 mem EntryPtr, read_u16 mem (EntryPtr + 2)) of
                    (Some v, Some sz) \<Rightarrow> Inr (encoding, baseptr + ucast v, ucast sz)
                  | _ \<Rightarrow> Inl OutOfBounds))
         else if fmt = DW_EH_PE_udata4 then
           (if \<not> unat fde_size \<ge> 2 * 4 + 4 then Inl AssertionFailed
            else (case (read_u32 mem EntryPtr, read_u32 mem (EntryPtr + 4)) of
                    (Some v, Some sz) \<Rightarrow> Inr (encoding, baseptr + ucast v, ucast sz)
                  | _ \<Rightarrow> Inl OutOfBounds))
         else if fmt = DW_EH_PE_udata8 then
           (if \<not> unat fde_size \<ge> 2 * 8 + 4 then Inl AssertionFailed
            else (case (read_u64 mem EntryPtr, read_u64 mem (EntryPtr + 8)) of
                    (Some v, Some sz) \<Rightarrow> Inr (encoding, baseptr + v, sz)
                  | _ \<Rightarrow> Inl OutOfBounds))
         else if fmt = DW_EH_PE_signed then
           (if \<not> unat fde_size \<ge> 2 * 8 + 4 then Inl AssertionFailed
            else (case (read_u64 mem EntryPtr, read_u64 mem (EntryPtr + 8)) of
                    (Some v, Some sz) \<Rightarrow> Inr (encoding, baseptr + v, sz)
                  | _ \<Rightarrow> Inl OutOfBounds))
         else if fmt = DW_EH_PE_sleb128 then
           (case parse_leb128 True mem EntryPtr fde_end of
              Inl e \<Rightarrow> Inl e
            | Inr (v, EntryPtr1) \<Rightarrow>
                (case parse_leb128 True mem EntryPtr1 fde_end of
                   Inl e \<Rightarrow> Inl e
                 | Inr (sz, EntryPtr2) \<Rightarrow> Inr (encoding, baseptr + v, sz)))
         else if fmt = DW_EH_PE_sdata2 then
           (if \<not> unat fde_size \<ge> 2 * 2 + 4 then Inl AssertionFailed
            else (case (read_u16 mem EntryPtr, read_u16 mem (EntryPtr + 2)) of
                    (Some v, Some sz) \<Rightarrow> Inr (encoding, baseptr + scast v, scast sz)
                  | _ \<Rightarrow> Inl OutOfBounds))
         else if fmt = DW_EH_PE_sdata4 then
           (if \<not> unat fde_size \<ge> 2 * 4 + 4 then Inl AssertionFailed
            else (case (read_u32 mem EntryPtr, read_u32 mem (EntryPtr + 4)) of
                    (Some v, Some sz) \<Rightarrow> Inr (encoding, baseptr + scast v, scast sz)
                  | _ \<Rightarrow> Inl OutOfBounds))
         else if fmt = DW_EH_PE_sdata8 then
           (if \<not> unat fde_size \<ge> 2 * 8 + 4 then Inl AssertionFailed
            else (case (read_u64 mem EntryPtr, read_u64 mem (EntryPtr + 8)) of
                    (Some v, Some sz) \<Rightarrow> Inr (encoding, baseptr + v, sz)
                  | _ \<Rightarrow> Inl OutOfBounds))
         else Inl AssertionFailed)))))"

section \<open>What a producer writes into an FDE\<close>

text \<open>
  The standard LEB128 encodings (DWARF): seven bits per byte, least significant
  group first, bit \<open>0x80\<close> set on every byte but the last. The signed encoding stops
  as soon as the remaining value is all sign bits and the sign bit \<open>0x40\<close> of the byte
  agrees with it, that is when the value lies in \<open>-64 .. 63\<close>.
\<close>

function uleb128_encode :: "nat \<Rightarrow> byte list" where
  "uleb128_encode n =
     (if n < 128 then [of_nat n] else of_nat (n mod 128 + 128) # uleb128_encode (n div 128))"
  by pat_completeness auto
termination
  by (relation "measure id") auto

declare uleb128_encode.simps [simp del]

function sleb128_encode :: "int \<Rightarrow> byte list" where
  "sleb128_encode x =
     (if - 64 \<le> x \<and> x < 64 then [of_int (x mod 128)]
      else of_int (x mod 128 + 128) # sleb128_encode (x div 128))"
  by pat_completeness auto
termination
  by (relation "measure (\<lambda>x. nat \<bar>x\<bar>)") auto

declare sleb128_encode.simps [simp del]

text \<open>
  The address encodings claim C2 lists, the bytes of a field of value \<open>x\<close> in each of
  them, and the values each can hold.
\<close>

definition supported_encoding :: "byte \<Rightarrow> bool" where
  "supported_encoding enc \<longleftrightarrow>
     enc = DW_EH_PE_absptr \<or>
     enc \<in> (\<lambda>fmt. DW_EH_PE_pcrel OR fmt) `
       {DW_EH_PE_uleb128, DW_EH_PE_sleb128, DW_EH_PE_udata2, DW_EH_PE_udata4, DW_EH_PE_udata8,
        DW_EH_PE_sdata2, DW_EH_PE_sdata4, DW_EH_PE_sdata8}"

definition encode_field :: "byte \<Rightarrow> int \<Rightarrow> byte list" where
  "encode_field enc x =
     (let fmt = enc AND 0xf in
      if enc = DW_EH_PE_absptr then le_bytes 8 (nat (x mod 2 ^ 64))
      else if fmt = DW_EH_PE_uleb128 then uleb128_encode (nat x)
      else if fmt = DW_EH_PE_sleb128 then sleb128_encode x
      else if fmt = DW_EH_PE_udata2 \<or> fmt = DW_EH_PE_sdata2 then le_bytes 2 (nat (x mod 2 ^ 16))
      else if fmt = DW_EH_PE_udata4 \<or> fmt = DW_EH_PE_sdata4 then le_bytes 4 (nat (x mod 2 ^ 32))
      else le_bytes 8 (nat (x mod 2 ^ 64)))"

definition field_range :: "byte \<Rightarrow> int \<Rightarrow> bool" where
  "field_range enc x =
     (let fmt = enc AND 0xf in
      if enc = DW_EH_PE_absptr \<or> fmt = DW_EH_PE_uleb128 \<or> fmt = DW_EH_PE_udata8
        then 0 \<le> x \<and> x < 2 ^ 64
      else if fmt = DW_EH_PE_udata2 then 0 \<le> x \<and> x < 2 ^ 16
      else if fmt = DW_EH_PE_udata4 then 0 \<le> x \<and> x < 2 ^ 32
      else if fmt = DW_EH_PE_sdata2 then - (2 ^ 15) \<le> x \<and> x < 2 ^ 15
      else if fmt = DW_EH_PE_sdata4 then - (2 ^ 31) \<le> x \<and> x < 2 ^ 31
      else - (2 ^ 63) \<le> x \<and> x < 2 ^ 63)"

section \<open>Demangling: \<open>jl_demangle\<close>\<close>

text \<open>
  A \<^verbatim>\<open>const char *\<close> is the characters before its first zero byte.
  \<^verbatim>\<open>strncmp(name, "julia_", 6)\<close> is zero exactly when the first six characters are
  \<^verbatim>\<open>julia_\<close>; the code tests the five prefixes only after \<^verbatim>\<open>end > start\<close>, that is
  for names longer than six characters. The test \<^verbatim>\<open>*start == '\0'\<close> that follows can
  then not succeed and has no branch here.
\<close>

definition c_str :: "string \<Rightarrow> string" where
  "c_str s = takeWhile (\<lambda>c. c \<noteq> CHR 0x00) s"

definition jl_prefixes :: "string list" where
  "jl_prefixes = [''japi1_'', ''japi3_'', ''julia_'', ''jsys1_'', ''jlsys_'']"

definition is_digit :: "char \<Rightarrow> bool" where
  \<comment> \<open>\<^verbatim>\<open>!(c < '0' || c > '9')\<close>\<close>
  "is_digit c \<longleftrightarrow> 48 \<le> (of_char c :: nat) \<and> (of_char c :: nat) \<le> 57"

text \<open>
  \<^verbatim>\<open>while (*(--end) != '_') { char c = *end; if (c < '0' || c > '9') goto done; }\<close>
  The argument is the index \<^verbatim>\<open>end - name\<close>; the result is the index of the underscore
  the loop stops at, or \<open>None\<close> for \<^verbatim>\<open>goto done\<close>. The loop is entered only behind a
  prefix, whose sixth character is an underscore, so \<open>end\<close> never reaches 0; the first
  equation is there for totality.
\<close>

fun scan_digits_back :: "string \<Rightarrow> nat \<Rightarrow> nat option" where
  "scan_digits_back s 0 = None"
| "scan_digits_back s (Suc e) =
     (if s ! e = CHR ''_'' then Some e
      else if \<not> is_digit (s ! e) then None
      else scan_digits_back s e)"

definition jl_demangle :: "string \<Rightarrow> string \<times> bool" where
  "jl_demangle name =
     (let s = c_str name; start = 6; end0 = length s in
      if end0 \<le> start then (s, False)
      else if take 6 s \<notin> set jl_prefixes then (s, False)
      else (case scan_digits_back s end0 of
              None \<Rightarrow> (s, False)
            | Some end1 \<Rightarrow>
                if end1 \<le> start then (s, False)
                else (take (end1 - start) (drop start s), True)))"

section \<open>Split debug info: the debug-link checksum and the candidate files\<close>

text \<open>The table \<^verbatim>\<open>g_crc32_tab\<close>, as the source has it.\<close>

definition g_crc32_tab :: "32 word list" where
  "g_crc32_tab =
    [
     0x00000000, 0x77073096, 0xee0e612c, 0x990951ba, 0x076dc419, 0x706af48f, 0xe963a535, 0x9e6495a3,
     0x0edb8832, 0x79dcb8a4, 0xe0d5e91e, 0x97d2d988, 0x09b64c2b, 0x7eb17cbd, 0xe7b82d07, 0x90bf1d91,
     0x1db71064, 0x6ab020f2, 0xf3b97148, 0x84be41de, 0x1adad47d, 0x6ddde4eb, 0xf4d4b551, 0x83d385c7,
     0x136c9856, 0x646ba8c0, 0xfd62f97a, 0x8a65c9ec, 0x14015c4f, 0x63066cd9, 0xfa0f3d63, 0x8d080df5,
     0x3b6e20c8, 0x4c69105e, 0xd56041e4, 0xa2677172, 0x3c03e4d1, 0x4b04d447, 0xd20d85fd, 0xa50ab56b,
     0x35b5a8fa, 0x42b2986c, 0xdbbbc9d6, 0xacbcf940, 0x32d86ce3, 0x45df5c75, 0xdcd60dcf, 0xabd13d59,
     0x26d930ac, 0x51de003a, 0xc8d75180, 0xbfd06116, 0x21b4f4b5, 0x56b3c423, 0xcfba9599, 0xb8bda50f,
     0x2802b89e, 0x5f058808, 0xc60cd9b2, 0xb10be924, 0x2f6f7c87, 0x58684c11, 0xc1611dab, 0xb6662d3d,
     0x76dc4190, 0x01db7106, 0x98d220bc, 0xefd5102a, 0x71b18589, 0x06b6b51f, 0x9fbfe4a5, 0xe8b8d433,
     0x7807c9a2, 0x0f00f934, 0x9609a88e, 0xe10e9818, 0x7f6a0dbb, 0x086d3d2d, 0x91646c97, 0xe6635c01,
     0x6b6b51f4, 0x1c6c6162, 0x856530d8, 0xf262004e, 0x6c0695ed, 0x1b01a57b, 0x8208f4c1, 0xf50fc457,
     0x65b0d9c6, 0x12b7e950, 0x8bbeb8ea, 0xfcb9887c, 0x62dd1ddf, 0x15da2d49, 0x8cd37cf3, 0xfbd44c65,
     0x4db26158, 0x3ab551ce, 0xa3bc0074, 0xd4bb30e2, 0x4adfa541, 0x3dd895d7, 0xa4d1c46d, 0xd3d6f4fb,
     0x4369e96a, 0x346ed9fc, 0xad678846, 0xda60b8d0, 0x44042d73, 0x33031de5, 0xaa0a4c5f, 0xdd0d7cc9,
     0x5005713c, 0x270241aa, 0xbe0b1010, 0xc90c2086, 0x5768b525, 0x206f85b3, 0xb966d409, 0xce61e49f,
     0x5edef90e, 0x29d9c998, 0xb0d09822, 0xc7d7a8b4, 0x59b33d17, 0x2eb40d81, 0xb7bd5c3b, 0xc0ba6cad,
     0xedb88320, 0x9abfb3b6, 0x03b6e20c, 0x74b1d29a, 0xead54739, 0x9dd277af, 0x04db2615, 0x73dc1683,
     0xe3630b12, 0x94643b84, 0x0d6d6a3e, 0x7a6a5aa8, 0xe40ecf0b, 0x9309ff9d, 0x0a00ae27, 0x7d079eb1,
     0xf00f9344, 0x8708a3d2, 0x1e01f268, 0x6906c2fe, 0xf762575d, 0x806567cb, 0x196c3671, 0x6e6b06e7,
     0xfed41b76, 0x89d32be0, 0x10da7a5a, 0x67dd4acc, 0xf9b9df6f, 0x8ebeeff9, 0x17b7be43, 0x60b08ed5,
     0xd6d6a3e8, 0xa1d1937e, 0x38d8c2c4, 0x4fdff252, 0xd1bb67f1, 0xa6bc5767, 0x3fb506dd, 0x48b2364b,
     0xd80d2bda, 0xaf0a1b4c, 0x36034af6, 0x41047a60, 0xdf60efc3, 0xa867df55, 0x316e8eef, 0x4669be79,
     0xcb61b38c, 0xbc66831a, 0x256fd2a0, 0x5268e236, 0xcc0c7795, 0xbb0b4703, 0x220216b9, 0x5505262f,
     0xc5ba3bbe, 0xb2bd0b28, 0x2bb45a92, 0x5cb36a04, 0xc2d7ffa7, 0xb5d0cf31, 0x2cd99e8b, 0x5bdeae1d,
     0x9b64c2b0, 0xec63f226, 0x756aa39c, 0x026d930a, 0x9c0906a9, 0xeb0e363f, 0x72076785, 0x05005713,
     0x95bf4a82, 0xe2b87a14, 0x7bb12bae, 0x0cb61b38, 0x92d28e9b, 0xe5d5be0d, 0x7cdcefb7, 0x0bdbdf21,
     0x86d3d2d4, 0xf1d4e242, 0x68ddb3f8, 0x1fda836e, 0x81be16cd, 0xf6b9265b, 0x6fb077e1, 0x18b74777,
     0x88085ae6, 0xff0f6a70, 0x66063bca, 0x11010b5c, 0x8f659eff, 0xf862ae69, 0x616bffd3, 0x166ccf45,
     0xa00ae278, 0xd70dd2ee, 0x4e048354, 0x3903b3c2, 0xa7672661, 0xd06016f7, 0x4969474d, 0x3e6e77db,
     0xaed16a4a, 0xd9d65adc, 0x40df0b66, 0x37d83bf0, 0xa9bcae53, 0xdebb9ec5, 0x47b2cf7f, 0x30b5ffe9,
     0xbdbdf21c, 0xcabac28a, 0x53b39330, 0x24b4a3a6, 0xbad03605, 0xcdd70693, 0x54de5729, 0x23d967bf,
     0xb3667a2e, 0xc4614ab8, 0x5d681b02, 0x2a6f2b94, 0xb40bbe37, 0xc30c8ea1, 0x5a05df1b, 0x2d02ef8d]"

text \<open>
  \<^verbatim>\<open>crc = ~0U; while (size--) crc = g_crc32_tab[(crc ^ *p++) & 0xFF] ^ (crc >> 8);
  return crc ^ ~0U;\<close>
\<close>

fun crc32_loop :: "32 word \<Rightarrow> byte list \<Rightarrow> 32 word" where
  "crc32_loop crc [] = crc"
| "crc32_loop crc (b # buf) =
     crc32_loop (g_crc32_tab ! unat ((crc XOR ucast b) AND 0xFF) XOR drop_bit 8 crc) buf"

definition calc_gnu_debuglink_crc32 :: "byte list \<Rightarrow> 32 word" where
  "calc_gnu_debuglink_crc32 buf = crc32_loop (NOT 0) buf XOR NOT 0"

text \<open>
  What \<^verbatim>\<open>openDebugInfo\<close> gets from outside: \<^verbatim>\<open>MemoryBuffer::getFile\<close> (the contents of
  the file at a path, if it can be read) and \<^verbatim>\<open>ObjectFile::createObjectFile\<close> (the parsed
  object, if the bytes are an object file). Both are LLVM's and are parameters here.
\<close>

record debug_link_info =
  dl_filename :: string
  dl_crc32 :: "32 word"

datatype open_error = file_error | arch_not_found | not_an_object

definition openDebugInfo ::
  "(string \<Rightarrow> byte list option) \<Rightarrow> (byte list \<Rightarrow> 'obj option) \<Rightarrow>
   string \<Rightarrow> debug_link_info \<Rightarrow> open_error + ('obj \<times> byte list)" where
  "openDebugInfo getFile createObjectFile debuginfopath info =
     (case getFile debuginfopath of
        None \<Rightarrow> Inl file_error
      | Some SplitFile \<Rightarrow>
          if calc_gnu_debuglink_crc32 SplitFile \<noteq> dl_crc32 info then Inl arch_not_found
          else (case createObjectFile SplitFile of
                  None \<Rightarrow> Inl not_an_object
                | Some splitobj \<Rightarrow> Inr (splitobj, SplitFile)))"

text \<open>
  \<^verbatim>\<open>fname.rfind('/')\<close>, and the two substrings the code takes with it:
  \<^verbatim>\<open>fname.substr(0, sep + 1)\<close> and \<^verbatim>\<open>fname.substr(sep + 1)\<close>. Without a slash \<^verbatim>\<open>sep\<close> is
  \<^verbatim>\<open>npos\<close>, the largest \<^verbatim>\<open>size_t\<close>, and \<^verbatim>\<open>sep + 1\<close> is 0.
\<close>

fun rfind :: "char \<Rightarrow> string \<Rightarrow> nat option" where
  "rfind c [] = None"
| "rfind c (x # xs) =
     (case rfind c xs of
        Some i \<Rightarrow> Some (Suc i)
      | None \<Rightarrow> if x = c then Some 0 else None)"

definition sep_plus_1 :: "string \<Rightarrow> nat" where
  "sep_plus_1 fname = (case rfind CHR ''/'' fname of None \<Rightarrow> 0 | Some sep \<Rightarrow> sep + 1)"

text \<open>
  The part of \<^verbatim>\<open>find_object_file\<close> that runs when the object at \<open>fname\<close> has a
  debug-link with a non-empty file name: up to three calls of \<^verbatim>\<open>openDebugInfo\<close>; the
  result is the companion object that replaces the primary one, or \<open>None\<close> when the
  primary object stays.
\<close>

definition find_debuglink_file ::
  "(string \<Rightarrow> byte list option) \<Rightarrow> (byte list \<Rightarrow> 'obj option) \<Rightarrow>
   string \<Rightarrow> debug_link_info \<Rightarrow> ('obj \<times> byte list) option" where
  "find_debuglink_file getFile createObjectFile fname info =
     (let k = sep_plus_1 fname;
          DebugInfo0 = Inl file_error;
          DebugInfo1 =
            (if drop k fname \<noteq> dl_filename info
             then openDebugInfo getFile createObjectFile (take k fname @ dl_filename info) info
             else DebugInfo0);
          DebugInfo2 =
            (if isl DebugInfo1
             then openDebugInfo getFile createObjectFile
                    (take k fname @ ''.debug/'' @ dl_filename info) info
             else DebugInfo1);
          DebugInfo3 =
            (if isl DebugInfo2
             then openDebugInfo getFile createObjectFile
                    (''/usr/lib/debug/'' @ take k fname @ dl_filename info) info
             else DebugInfo2)
      in case DebugInfo3 of Inl e \<Rightarrow> None | Inr found \<Rightarrow> Some found)"

text \<open>
  The CRC-32 of the common debugging toolchains, said without a table: the register
  starts with all bits set, each byte is XORed into its low end and followed by eight
  steps of the reflected polynomial \<open>0xEDB88320\<close>, and the result is complemented.
\<close>

definition crc32_bit_step :: "32 word \<Rightarrow> 32 word" where
  "crc32_bit_step c = (if bit c 0 then drop_bit 1 c XOR 0xEDB88320 else drop_bit 1 c)"

definition crc32_table_entry :: "nat \<Rightarrow> 32 word" where
  "crc32_table_entry i = (crc32_bit_step ^^ 8) (of_nat i)"

definition crc32_reflected :: "byte list \<Rightarrow> 32 word" where
  "crc32_reflected buf = NOT (fold (\<lambda>b c. (crc32_bit_step ^^ 8) (c XOR ucast b)) buf (NOT 0))"

text \<open>
  The candidate files of a debug-link in the order of the code, what it takes for one
  of them to be accepted, and the first accepted element of a list.
\<close>

definition candidate_paths :: "string \<Rightarrow> debug_link_info \<Rightarrow> string list" where
  "candidate_paths fname info =
     (let dir = take (sep_plus_1 fname) fname; base = drop (sep_plus_1 fname) fname in
      (if base \<noteq> dl_filename info then [dir @ dl_filename info] else []) @
      [dir @ ''.debug/'' @ dl_filename info, ''/usr/lib/debug/'' @ dir @ dl_filename info])"

definition accepted_candidate ::
  "(string \<Rightarrow> byte list option) \<Rightarrow> (byte list \<Rightarrow> 'obj option) \<Rightarrow>
   debug_link_info \<Rightarrow> string \<Rightarrow> ('obj \<times> byte list) option" where
  "accepted_candidate getFile createObjectFile info path =
     (case getFile path of
        None \<Rightarrow> None
      | Some contents \<Rightarrow>
          if crc32_reflected contents = dl_crc32 info
          then map_option (\<lambda>obj. (obj, contents)) (createObjectFile contents)
          else None)"

fun first_accepted :: "('a \<Rightarrow> 'b option) \<Rightarrow> 'a list \<Rightarrow> 'b option" where
  "first_accepted f [] = None"
| "first_accepted f (x # xs) = (case f x of Some y \<Rightarrow> Some y | None \<Rightarrow> first_accepted f xs)"

section \<open>The code object registry\<close>

text \<open>
  An object file as the registry reads it through LLVM's accessors. The record fields
  are what \<^verbatim>\<open>getType\<close>, \<^verbatim>\<open>getAddress\<close>, \<^verbatim>\<open>getSection\<close>, \<^verbatim>\<open>getName\<close>, \<^verbatim>\<open>isText\<close>,
  \<^verbatim>\<open>getSize\<close> and \<^verbatim>\<open>getIndex\<close> return; the code wraps them in \<^verbatim>\<open>cantFail\<close>, so an
  object on which they fail is not an input. A symbol's section is \<open>None\<close> when
  \<^verbatim>\<open>getSection\<close> returns \<^verbatim>\<open>section_end()\<close>.
\<close>

datatype symbol_type = ST_Unknown | ST_Other | ST_Data | ST_Debug | ST_File | ST_Function

record section_ref =
  sec_name :: string
  sec_address :: "64 word"
  sec_size :: "64 word"
  sec_isText :: bool
  sec_isVirtual :: bool
  sec_index :: nat
  sec_contents :: "byte list option"

record symbol_ref =
  sym_type :: symbol_type
  sym_address :: "64 word"
  sym_section :: "section_ref option"
  sym_name :: string

datatype object_format = ELF | MachO | COFF

record object_file =
  obj_format :: object_format
  obj_symbols :: "symbol_ref list"
  obj_sections :: "section_ref list"
  obj_data :: "byte list"

text \<open>
  A debug-info context as the code queries it: the chain of inlined frames at a
  sectioned address (innermost first, as LLVM's \<^verbatim>\<open>DIInliningInfo\<close> orders it) and the
  line information at one. A sectioned address is what \<^verbatim>\<open>makeAddress(Section, address)\<close>
  is given: a section, as an object and the index of the section in it, and an address.
\<close>

record DILineInfo =
  FileName :: string
  FunctionName :: string
  Line :: "32 word"

type_synonym sectioned_address = "(object_file \<times> nat) \<times> 64 word"

record DIContext =
  getInliningInfoForAddress :: "sectioned_address \<Rightarrow> DILineInfo list"
  getLineInfoForAddress :: "sectioned_address \<Rightarrow> DILineInfo"

text \<open>
  \<^verbatim>\<open>LazyObjectInfo\<close>: the stored bytes of an object image, the size they decompress to
  (0 when they are stored as they are), and the parsed object and context once made.
  \<^verbatim>\<open>SectionInfo\<close> holds a pointer to the \<^verbatim>\<open>LazyObjectInfo\<close> its section was carved from;
  several records share one image, so the images live in a store, by address.
  A \<^verbatim>\<open>jl_code_instance_t *\<close> is its address; \<open>None\<close> is \<^verbatim>\<open>NULL\<close>.
\<close>

type_synonym code_instance = nat

record LazyObjectInfo =
  lo_data :: "byte list"
  lo_uncompressedsize :: nat
  lo_object :: "object_file option"
  lo_context :: "DIContext option"

record SectionInfo =
  si_object :: nat
  si_SectionSize :: "64 word"
  si_slide :: "64 word"
  si_SectionIndex :: nat

text \<open>
  Modelled from the spec: the ordered maps \<^verbatim>\<open>cimap\<close> and \<^verbatim>\<open>objectmap\<close>. Their type is
  declared in \<^verbatim>\<open>debug-registry.h\<close>, which is not among the sources; the spec says that
  a lookup finds "the greatest key \<open>\<le>\<close> address", so the maps are ordered by
  descending key and \<^verbatim>\<open>lower_bound(p)\<close>, the first entry whose key does not come before
  \<open>p\<close> in that order, is the first entry with key \<open>\<le> p\<close> (the map of
  \<^verbatim>\<open>get_function_name_and_base\<close> in the source is declared with \<^verbatim>\<open>std::greater\<close> and
  searched the same way). A map is the list of its entries in its own order;
  \<open>rev_map_assign\<close> is \<^verbatim>\<open>m[k] = v\<close>, \<open>rev_map_insert\<close> is \<^verbatim>\<open>m.insert({k, v})\<close>, which
  leaves an existing entry as it is.
\<close>

type_synonym 'v rev_map = "(64 word \<times> 'v) list"

fun lower_bound :: "'v rev_map \<Rightarrow> 64 word \<Rightarrow> (64 word \<times> 'v) option" where
  "lower_bound [] p = None"
| "lower_bound ((k, v) # m) p = (if k \<le> p then Some (k, v) else lower_bound m p)"

fun rev_map_assign :: "'v rev_map \<Rightarrow> 64 word \<Rightarrow> 'v \<Rightarrow> 'v rev_map" where
  "rev_map_assign [] k v = [(k, v)]"
| "rev_map_assign ((k', v') # m) k v =
     (if k' = k then (k, v) # m
      else if k' < k then (k, v) # (k', v') # m
      else (k', v') # rev_map_assign m k v)"

fun rev_map_insert :: "'v rev_map \<Rightarrow> 64 word \<Rightarrow> 'v \<Rightarrow> 'v rev_map" where
  "rev_map_insert [] k v = [(k, v)]"
| "rev_map_insert ((k', v') # m) k v =
     (if k' = k then (k', v') # m
      else if k' < k then (k, v) # (k', v') # m
      else (k', v') # rev_map_insert m k v)"

text \<open>
  The registry, with what its operations change outside it: the store of images
  (\<open>next_image\<close> is the address the next \<^verbatim>\<open>new LazyObjectInfo\<close> returns), the byte
  counter of \<^verbatim>\<open>jl_jit_add_bytes\<close>, and the registrations with the two unwinders
  (\<^verbatim>\<open>__register_frame\<close> and \<^verbatim>\<open>_U_dyn_register\<close>).
\<close>

record unw_dyn_info =
  di_start_ip :: "64 word"
  di_end_ip :: "64 word"
  di_segbase :: "64 word"
  di_table :: "(32 word \<times> 32 word) list"

text \<open>
  \<^verbatim>\<open>image_info_t\<close>, the record of a system image: its base address, its tables of
  function pointers (\<^verbatim>\<open>jl_image_fptrs_t\<close>) and the code instances of its functions. The
  tables are C arrays behind pointers; an array is the function from an index to what
  is stored there.
\<close>

record jl_image_fptrs_t =
  ptrs :: "nat \<Rightarrow> 64 word"
  nptrs :: "32 word"
  clone_ptrs :: "nat \<Rightarrow> 64 word"
  clone_idxs :: "nat \<Rightarrow> 32 word"
  nclones :: "32 word"

record image_info_t =
  base :: "64 word"
  fptrs :: jl_image_fptrs_t
  fvars_cinst :: "nat \<Rightarrow> code_instance option"
  fvars_n :: nat

record registry =
  codeinst_in_flight :: "string \<rightharpoonup> code_instance"
  cimap :: "(64 word \<times> code_instance) rev_map"
  objectmap :: "SectionInfo rev_map"
  image_info :: "64 word \<rightharpoonup> image_info_t"
  images :: "nat \<rightharpoonup> LazyObjectInfo"
  next_image :: nat
  jit_bytes :: "64 word"
  registered_frames :: "64 word list"
  dyn_registered :: "unw_dyn_info list"

text \<open>
  What the registry and the symbolication call and the sources do not define: LLVM's
  name mangler, \<^verbatim>\<open>computeSymbolSizes\<close>, the compression codecs and their availability,
  \<^verbatim>\<open>createObjectFile\<close> and \<^verbatim>\<open>DWARFContext::create\<close>, whether the calling thread gets
  the profile lock (\<^verbatim>\<open>jl_lock_profile_wr\<close> refuses it to a thread that holds the lock
  for reading, which does not change during a call), the dynamic loader's \<^verbatim>\<open>dladdr1\<close>
  (the \<^verbatim>\<open>Dl_info\<close> and the \<^verbatim>\<open>l_addr\<close> of the link map, when it succeeds) and the
  constant \<^verbatim>\<open>jl_sysimg_val_mask\<close>.

  Two functions of the source are parameters as well, because what they return is
  decided by the files on disk and by the unwinder's tables: \<^verbatim>\<open>find_object_file\<close>, which
  opens and parses the library at a path (the choice of its companion debug file is
  \<open>find_debuglink_file\<close> above), and \<^verbatim>\<open>get_function_name_and_base\<close>, which is given the
  address and the name found so far (\<open>None\<close> for a \<^verbatim>\<open>NULL\<close> pointer \<^verbatim>\<open>saddr\<close>) and returns
  them improved.
\<close>

record Dl_info =
  dli_fname :: "string option"
  dli_sname :: "string option"
  dli_saddr :: "64 word"

record jl_object_file_entry_t =
  oe_obj :: "object_file option"
  oe_ctx :: "DIContext option"
  oe_slide :: "64 word"

datatype compression_format = Zlib | Zstd

record environment =
  mangle :: "string \<Rightarrow> string"
  computeSymbolSizes :: "object_file \<Rightarrow> (symbol_ref \<times> 64 word) list"
  zstd_isAvailable :: bool
  zlib_isAvailable :: bool
  compress :: "compression_format \<Rightarrow> byte list \<Rightarrow> byte list"
  decompress :: "compression_format \<Rightarrow> byte list \<Rightarrow> nat \<Rightarrow> byte list option"
  createObjectFile :: "byte list \<Rightarrow> object_file option"
  DWARFContext_create :: "object_file \<Rightarrow> DIContext"
  lock_profile_wr :: bool
  dladdr1 :: "64 word \<Rightarrow> (Dl_info \<times> 64 word) option"
  jl_sysimg_val_mask :: "32 word"
  find_object_file :: "64 word \<Rightarrow> string \<Rightarrow> jl_object_file_entry_t"
  get_function_name_and_base ::
    "(object_file \<times> nat) option \<Rightarrow> 64 word \<Rightarrow> 64 word \<Rightarrow> bool \<Rightarrow> 64 word option \<Rightarrow>
     string option \<Rightarrow> 64 word option \<times> string option"

definition add_code_in_flight ::
  "environment \<Rightarrow> registry \<Rightarrow> string \<Rightarrow> code_instance \<Rightarrow> registry" where
  "add_code_in_flight env st name codeinst =
     st\<lparr>codeinst_in_flight := (codeinst_in_flight st)(mangle env name \<mapsto> codeinst)\<rparr>"

definition add_image_info :: "registry \<Rightarrow> image_info_t \<Rightarrow> registry" where
  "add_image_info st info = st\<lparr>image_info := (image_info st)(base info \<mapsto> info)\<rparr>"

definition lookupCodeInstance :: "registry \<Rightarrow> 64 word \<Rightarrow> code_instance option" where
  "lookupCodeInstance st pointer =
     (case lower_bound (cimap st) pointer of
        None \<Rightarrow> None
      | Some (first, (sz, codeinst)) \<Rightarrow> if pointer < first + sz then Some codeinst else None)"

text \<open>
  \<^verbatim>\<open>jl_profile_atomic(f)\<close> takes the profile lock for writing, asserts that it got it, and
  runs \<open>f\<close>; \<open>r\<close> is what \<open>f\<close> leaves behind.
\<close>

definition jl_profile_atomic :: "environment \<Rightarrow> 'a \<Rightarrow> error + 'a" where
  "jl_profile_atomic env r = (if lock_profile_wr env then Inr r else Inl AssertionFailed)"

text \<open>
  The body of the loop of \<^verbatim>\<open>registerJITObject\<close> over the symbols and their sizes, for
  one symbol; the flag is \<^verbatim>\<open>hassection\<close>, \<open>ObjectCopy\<close> the address of the new image.
  The blocks for ARM and for Windows are not compiled in the configuration of this
  development (64-bit, neither of the two).
\<close>

definition register_symbol ::
  "environment \<Rightarrow> (string \<Rightarrow> 64 word) \<Rightarrow> nat \<Rightarrow> symbol_ref \<times> 64 word \<Rightarrow>
   registry \<times> bool \<Rightarrow> error + registry \<times> bool" where
  "register_symbol env getLoadAddress ObjectCopy sym_size acc =
     (let (sym_iter, Size) = sym_size; (st, hassection) = acc in
      if sym_type sym_iter \<noteq> ST_Function then Inr acc
      else (case sym_section sym_iter of
        None \<Rightarrow> Inr acc
      | Some Section \<Rightarrow>
          if \<not> sec_isText Section then Inr acc
          else
            (let SectionAddr = sec_address Section;
                 SectionLoadAddr = getLoadAddress (sec_name Section);
                 Addr = sym_address sym_iter + (SectionLoadAddr - SectionAddr);
                 sName = sym_name sym_iter;
                 SectionSize = sec_size Section;
                 codeinst = codeinst_in_flight st sName;
                 st1 = st\<lparr>codeinst_in_flight := (codeinst_in_flight st)(sName := None)\<rparr>;
                 st2 = (case codeinst of
                          None \<Rightarrow> st1
                        | Some c \<Rightarrow> st1\<lparr>cimap := rev_map_assign (cimap st1) Addr (Size, c)\<rparr>);
                 st3 = st2\<lparr>objectmap := rev_map_insert (objectmap st2) SectionLoadAddr
                          \<lparr>si_object = ObjectCopy, si_SectionSize = SectionSize,
                           si_slide = SectionAddr - SectionLoadAddr,
                           si_SectionIndex = sec_index Section\<rparr>\<rparr>
             in jl_profile_atomic env (st3, True))))"

fun register_symbols ::
  "environment \<Rightarrow> (string \<Rightarrow> 64 word) \<Rightarrow> nat \<Rightarrow> (symbol_ref \<times> 64 word) list \<Rightarrow>
   registry \<times> bool \<Rightarrow> error + registry \<times> bool" where
  "register_symbols env getLoadAddress ObjectCopy [] acc = Inr acc"
| "register_symbols env getLoadAddress ObjectCopy (sym_size # symbols) acc =
     (case register_symbol env getLoadAddress ObjectCopy sym_size acc of
        Inl e \<Rightarrow> Inl e
      | Inr acc' \<Rightarrow> register_symbols env getLoadAddress ObjectCopy symbols acc')"

text \<open>
  The statements of \<^verbatim>\<open>registerJITObject\<close> from the compression of the object's bytes to
  \<^verbatim>\<open>jl_jit_add_bytes\<close>: they put a new \<^verbatim>\<open>LazyObjectInfo\<close> in the store, at the address
  \<open>next_image\<close>.
\<close>

definition new_LazyObjectInfo :: "environment \<Rightarrow> registry \<Rightarrow> object_file \<Rightarrow> registry" where
  "new_LazyObjectInfo env st Object =
     (let unpacked = obj_data Object;
          F = (if zstd_isAvailable env then Some Zstd
               else if zlib_isAvailable env then Some Zlib else None);
          data = (case F of None \<Rightarrow> unpacked | Some f \<Rightarrow> compress env f unpacked)
      in st\<lparr>images := (images st)(next_image st \<mapsto>
               \<lparr>lo_data = data,
                lo_uncompressedsize = (case F of None \<Rightarrow> 0 | Some f \<Rightarrow> length unpacked),
                lo_object = None, lo_context = None\<rparr>),
             next_image := next_image st + 1,
             jit_bytes := jit_bytes st + of_nat (length data)\<rparr>)"

definition registerJITObject ::
  "environment \<Rightarrow> registry \<Rightarrow> object_file \<Rightarrow> (string \<Rightarrow> 64 word) \<Rightarrow> error + registry" where
  "registerJITObject env st Object getLoadAddress =
     (let anyfunctions = list_ex (\<lambda>sym_iter. sym_type sym_iter = ST_Function) (obj_symbols Object) in
      if \<not> anyfunctions then Inr st
      else
        (let ObjectCopy = next_image st;
             st1 = new_LazyObjectInfo env st Object;
             symbols = computeSymbolSizes env Object
         in case register_symbols env getLoadAddress ObjectCopy symbols (st1, False) of
              Inl e \<Rightarrow> Inl e
            | Inr (st2, hassection) \<Rightarrow>
                if \<not> hassection then Inr (st2\<lparr>images := (images st2)(ObjectCopy := None)\<rparr>)
                else Inr st2))"

section \<open>Symbolication\<close>

text \<open>
  A \<^verbatim>\<open>jl_frame_t\<close>. The two names are \<^verbatim>\<open>NULL\<close> or strings; \<^verbatim>\<open>fromC\<close> and \<^verbatim>\<open>inlined\<close> are
  \<^verbatim>\<open>int\<close>s that only ever hold 0 or 1 and are read as truth values. \<open>calloc_frame\<close> is a
  frame as \<^verbatim>\<open>calloc\<close> returns it, all zero.
\<close>

record jl_frame_t =
  func_name :: "string option"
  file_name :: "string option"
  line :: "32 word"
  ci :: "code_instance option"
  fromC :: bool
  inlined :: bool

definition calloc_frame :: jl_frame_t where
  "calloc_frame = \<lparr>func_name = None, file_name = None, line = 0, ci = None,
                    fromC = False, inlined = False\<rparr>"

text \<open>
  The branch of \<^verbatim>\<open>lookup_pointer\<close> for \<^verbatim>\<open>!context || !Section.getObject()\<close>. The two
  recursive calls of \<^verbatim>\<open>lookup_pointer\<close> pass \<^verbatim>\<open>NULL\<close> for the context and so run this
  branch and nothing else. \<open>frame0\<close> is the one element of \<^verbatim>\<open>*frames\<close>.
\<close>

definition lookup_pointer_no_context :: "jl_frame_t \<Rightarrow> bool \<Rightarrow> nat \<times> jl_frame_t list" where
  "lookup_pointer_no_context frame0 demangle =
     (1, [if demangle
          then (case func_name frame0 of
                  Some oldname \<Rightarrow>
                    (let demangled = jl_demangle oldname
                     in frame0\<lparr>func_name := Some (fst demangled), fromC := \<not> snd demangled\<rparr>)
                | None \<Rightarrow> frame0\<lparr>fromC := True\<rparr>)
          else frame0])"

text \<open>
  The body of the loop over the frames, after \<open>info\<close> has been fetched:
  \<^verbatim>\<open>func_name.find(';')\<close> and \<^verbatim>\<open>substr(0, semi_pos)\<close> keep the characters before the
  first semicolon; \<^verbatim>\<open>jl_copy_str\<close> stores a copy of the C string.
\<close>

definition expand_frame :: "bool \<Rightarrow> bool \<Rightarrow> DILineInfo \<Rightarrow> jl_frame_t \<Rightarrow> jl_frame_t" where
  "expand_frame inlined_frame fromC0 info frame =
     (let func_name0 = FunctionName info;
          frame1 = (if inlined_frame then frame\<lparr>inlined := True, fromC := fromC0\<rparr> else frame);
          cut = (inlined_frame \<and> \<not> fromC0 \<and> CHR '';'' \<in> set func_name0);
          func_name1 = (if cut then takeWhile (\<lambda>c. c \<noteq> CHR '';'') func_name0 else func_name0);
          frame2 = (if cut then frame1\<lparr>ci := None\<rparr> else frame1);
          frame3 = (if func_name1 = ''<invalid>'' then frame2\<lparr>func_name := None\<rparr>
                    else frame2\<lparr>func_name := Some (c_str func_name1)\<rparr>);
          frame4 = (if func_name frame3 = None then frame3\<lparr>fromC := True\<rparr> else frame3);
          frame5 = frame4\<lparr>line := Line info\<rparr>;
          file_name0 = FileName info
      in if file_name0 = ''<invalid>'' then frame5\<lparr>file_name := None\<rparr>
         else frame5\<lparr>file_name := Some (c_str file_name0)\<rparr>)"

text \<open>
  An empty \<^verbatim>\<open>SectionRef\<close> (no object) is \<open>None\<close>; otherwise it is the object and the
  index of the section in it.

  The loop of \<^verbatim>\<open>lookup_pointer\<close>, over the indices \<open>0 ..< n_frames\<close>. Without
  \<^verbatim>\<open>noInline\<close> frame \<open>i\<close> comes from the inlining chain; with it the line information is
  asked for again, behind an \<^verbatim>\<open>assert\<close> that the lock was taken.
\<close>

type_synonym SectionRef = "(object_file \<times> nat) option"

fun lookup_pointer_loop ::
  "environment \<Rightarrow> DIContext \<Rightarrow> sectioned_address \<Rightarrow> DILineInfo list \<Rightarrow>
   bool \<Rightarrow> bool \<Rightarrow> nat \<Rightarrow> nat list \<Rightarrow> jl_frame_t list \<Rightarrow> error + jl_frame_t list" where
  "lookup_pointer_loop env ctx address inlineInfo noInline fromC0 n_frames [] frames = Inr frames"
| "lookup_pointer_loop env ctx address inlineInfo noInline fromC0 n_frames (i # indices) frames =
     (let inlined_frame = (i \<noteq> n_frames - 1) in
      case (if \<not> noInline then Inr (inlineInfo ! i)
            else if lock_profile_wr env then Inr (getLineInfoForAddress ctx address)
            else Inl AssertionFailed) of
        Inl e \<Rightarrow> Inl e
      | Inr info \<Rightarrow>
          lookup_pointer_loop env ctx address inlineInfo noInline fromC0 n_frames indices
            (frames[i := expand_frame inlined_frame fromC0 info (frames ! i)]))"

definition lookup_pointer ::
  "environment \<Rightarrow> SectionRef \<Rightarrow> DIContext option \<Rightarrow> jl_frame_t \<Rightarrow> 64 word \<Rightarrow> 64 word \<Rightarrow>
   bool \<Rightarrow> bool \<Rightarrow> error + nat \<times> jl_frame_t list" where
  "lookup_pointer env Section context0 frame0 pointer slide demangle noInline =
     (case (context0, Section) of
        (Some ctx, Some sec) \<Rightarrow>
          if \<not> lock_profile_wr env then Inr (lookup_pointer_no_context frame0 demangle)
          else
            (let address = (sec, pointer + slide);
                 inlineInfo = getInliningInfoForAddress ctx address;
                 fromC0 = fromC frame0
             in if length inlineInfo = 0 then Inr (lookup_pointer_no_context frame0 demangle)
                else
                  (let n_frames = (if noInline then 1 else length inlineInfo);
                       frames = (if n_frames > 1
                                 then replicate (n_frames - 1) calloc_frame @ [frame0]
                                 else [frame0])
                   in case lookup_pointer_loop env ctx address inlineInfo noInline fromC0
                             n_frames [0..<n_frames] frames of
                        Inl e \<Rightarrow> Inl e
                      | Inr frames' \<Rightarrow> Inr (n_frames, frames')))
      | _ \<Rightarrow> Inr (lookup_pointer_no_context frame0 demangle))"

text \<open>
  \<^verbatim>\<open>jl_DI_for_fptr\<close>. The result is \<open>None\<close> for \<^verbatim>\<open>found = 0\<close>, and for \<^verbatim>\<open>found = 1\<close> the
  slide with the values of \<^verbatim>\<open>*Section\<close> and \<^verbatim>\<open>*context\<close> after the call; the caller in
  this file initialises both to empty, which is what they are here when the function
  does not write them. \<open>want_context\<close> says that the pointer \<^verbatim>\<open>context\<close> is not
  \<^verbatim>\<open>NULL\<close>. The image is updated in the store, as \<^verbatim>\<open>lazyobject\<close> points into it.
  \<^verbatim>\<open>std::next(section_begin(), n)\<close> is section \<open>n\<close> of the object.
\<close>

definition decompress_image :: "environment \<Rightarrow> LazyObjectInfo \<Rightarrow> LazyObjectInfo" where
  "decompress_image env lo =
     (if lo_uncompressedsize lo \<noteq> 0
      then (let F = (if zstd_isAvailable env then Zstd else Zlib)
            in case decompress env F (lo_data lo) (lo_uncompressedsize lo) of
                 None \<Rightarrow> lo\<lparr>lo_data := [], lo_uncompressedsize := 0\<rparr>
               | Some unpacked \<Rightarrow> lo\<lparr>lo_data := unpacked, lo_uncompressedsize := 0\<rparr>)
      else lo)"

definition parse_image :: "environment \<Rightarrow> LazyObjectInfo \<Rightarrow> LazyObjectInfo" where
  "parse_image env lo =
     (if lo_data lo \<noteq> []
      then (case createObjectFile env (lo_data lo) of
              Some obj \<Rightarrow> lo\<lparr>lo_object := Some obj\<rparr>
            | None \<Rightarrow> lo\<lparr>lo_data := []\<rparr>)
      else lo)"

definition jl_DI_for_fptr ::
  "environment \<Rightarrow> registry \<Rightarrow> 64 word \<Rightarrow> bool \<Rightarrow>
   error + registry \<times> (64 word \<times> SectionRef \<times> DIContext option) option" where
  "jl_DI_for_fptr env st fptr want_context =
     (if \<not> lock_profile_wr env then Inr (st, None)
      else case lower_bound (objectmap st) fptr of
        None \<Rightarrow> Inr (st, None)
      | Some (first, fit) \<Rightarrow>
          if \<not> fptr < first + si_SectionSize fit then Inr (st, None)
          else (case images st (si_object fit) of
            None \<Rightarrow> Inl DanglingPointer
          | Some lazyobject \<Rightarrow>
              (let fresh = (lo_object lazyobject = None \<and> lo_data lazyobject \<noteq> []);
                   lo1 = (if fresh then decompress_image env lazyobject else lazyobject);
                   added = (if fresh \<and> lo_uncompressedsize lazyobject \<noteq> 0
                            then of_nat (length (lo_data lo1)) -
                                 of_nat (lo_uncompressedsize lazyobject)
                            else 0);
                   lo2 = (if fresh then parse_image env lo1 else lo1);
                   lo3 = (case lo_object lo2 of
                            Some obj \<Rightarrow>
                              if want_context \<and> lo_context lo2 = None
                              then lo2\<lparr>lo_context := Some (DWARFContext_create env obj)\<rparr>
                              else lo2
                          | None \<Rightarrow> lo2);
                   Section = (case lo_object lo3 of
                                Some obj \<Rightarrow> Some (obj, si_SectionIndex fit)
                              | None \<Rightarrow> None);
                   context1 = (if lo_object lo3 \<noteq> None \<and> want_context then lo_context lo3
                               else None);
                   st1 = st\<lparr>images := (images st)(si_object fit \<mapsto> lo3),
                            jit_bytes := jit_bytes st + added\<rparr>
               in Inr (st1, Some (si_slide fit, Section, context1)))))"

text \<open>
  \<^verbatim>\<open>getModuleSectionForAddress\<close>: the first text section, not virtual, that contains the
  address.
\<close>

definition getModuleSectionForAddress :: "object_file \<Rightarrow> 64 word \<Rightarrow> SectionRef" where
  "getModuleSectionForAddress obj Address =
     (case find (\<lambda>Sec. \<not> (\<not> sec_isText Sec \<or> sec_isVirtual Sec) \<and>
                         Address \<ge> sec_address Sec \<and>
                         Address < sec_address Sec + sec_size Sec) (obj_sections obj) of
        Some Sec \<Rightarrow> Some (obj, sec_index Sec)
      | None \<Rightarrow> None)"

text \<open>
  \<^verbatim>\<open>jl_dylib_DI_for_fptr\<close>, as compiled with glibc (\<^verbatim>\<open>untrusted_dladdr\<close> is false). The
  result is \<open>None\<close> when the function returns false; it has then written neither of the
  two names. Otherwise it is what the caller reads back from the out-parameters.
\<close>

record dylib_DI =
  dd_Section :: SectionRef
  dd_slide :: "64 word"
  dd_context :: "DIContext option"
  dd_isImage :: bool
  dd_fbase :: "64 word"
  dd_saddr :: "64 word"
  dd_name :: "string option"
  dd_filename :: "string option"

definition jl_dylib_DI_for_fptr ::
  "environment \<Rightarrow> registry \<Rightarrow> 64 word \<Rightarrow> bool \<Rightarrow> dylib_DI option" where
  "jl_dylib_DI_for_fptr env st pointer onlyImage =
     (case dladdr1 env pointer of
        None \<Rightarrow> None
      | Some (dlinfo, l_addr) \<Rightarrow>
          (case dli_fname dlinfo of
             None \<Rightarrow> None
           | Some fname \<Rightarrow>
               (let fbase = l_addr;
                    inimage = (image_info st fbase \<noteq> None);
                    saddr0 = dli_saddr dlinfo
                in if onlyImage \<and> \<not> inimage then None
                   else
                     (let name0 = dli_sname dlinfo;
                          entry = find_object_file env fbase fname;
                          Section = (case oe_obj entry of
                                       Some obj \<Rightarrow>
                                         getModuleSectionForAddress obj (pointer + oe_slide entry)
                                     | None \<Rightarrow> None);
                          no_saddr = (case image_info st fbase of
                                        None \<Rightarrow> True
                                      | Some info \<Rightarrow> nptrs (fptrs info) = 0);
                          (saddr1, name1) =
                             get_function_name_and_base env Section pointer (oe_slide entry)
                               inimage (if no_saddr then None else Some saddr0) name0
                      in Some \<lparr>dd_Section = Section, dd_slide = oe_slide entry,
                               dd_context = oe_ctx entry, dd_isImage = inimage,
                               dd_fbase = fbase,
                               dd_saddr = (case saddr1 of Some a \<Rightarrow> a | None \<Rightarrow> saddr0),
                               dd_name = name1, dd_filename = Some fname\<rparr>))))"

text \<open>
  The two loops of \<^verbatim>\<open>jl_getDylibFunctionInfo\<close> that look the start address up in the
  tables of the image; each stops at the first index that matches.
\<close>

definition image_code_instance ::
  "environment \<Rightarrow> image_info_t \<Rightarrow> 64 word \<Rightarrow> code_instance option \<Rightarrow> code_instance option" where
  "image_code_instance env img saddr ci0 =
     (let ci1 = (case find (\<lambda>i. saddr = clone_ptrs (fptrs img) i)
                        [0..<unat (nclones (fptrs img))] of
                   Some i \<Rightarrow>
                     (let idx = clone_idxs (fptrs img) i AND jl_sysimg_val_mask env
                      in if unat idx < fvars_n img then fvars_cinst img (unat idx) else ci0)
                 | None \<Rightarrow> ci0)
      in case find (\<lambda>i. saddr = ptrs (fptrs img) i) [0..<fvars_n img] of
           Some i \<Rightarrow> fvars_cinst img i
         | None \<Rightarrow> ci1)"

definition jl_getDylibFunctionInfo ::
  "environment \<Rightarrow> registry \<Rightarrow> jl_frame_t \<Rightarrow> 64 word \<Rightarrow> bool \<Rightarrow> bool \<Rightarrow>
   error + nat \<times> jl_frame_t list" where
  "jl_getDylibFunctionInfo env st frame0 pointer skipC noInline =
     (case jl_dylib_DI_for_fptr env st pointer skipC of
        None \<Rightarrow> Inr (1, [frame0\<lparr>fromC := True\<rparr>])
      | Some r \<Rightarrow>
          (let frame1 = frame0\<lparr>func_name := dd_name r, file_name := dd_filename r,
                               fromC := \<not> dd_isImage r\<rparr>;
               frame2 = (case image_info st (dd_fbase r) of
                           Some img \<Rightarrow>
                             if dd_isImage r \<and> dd_saddr r \<noteq> 0
                             then frame1\<lparr>ci := image_code_instance env img (dd_saddr r)
                                                  (ci frame1)\<rparr>
                             else frame1
                         | None \<Rightarrow> frame1)
           in lookup_pointer env (dd_Section r) (dd_context r) frame2 pointer (dd_slide r)
                (dd_isImage r) noInline))"

text \<open>
  \<^verbatim>\<open>jl_getFunctionInfo_impl\<close>: the frame count it returns and the array it leaves in
  \<^verbatim>\<open>*frames_out\<close>, with the registry after the call. \<^verbatim>\<open>skipC\<close> and \<^verbatim>\<open>noInline\<close> are
  \<^verbatim>\<open>int\<close>s read as truth values.
\<close>

definition jl_getFunctionInfo_impl ::
  "environment \<Rightarrow> registry \<Rightarrow> 64 word \<Rightarrow> bool \<Rightarrow> bool \<Rightarrow>
   error + registry \<times> nat \<times> jl_frame_t list" where
  "jl_getFunctionInfo_impl env st pointer skipC noInline =
     (let frames0 = calloc_frame\<lparr>line := - 1\<rparr> in
      case jl_DI_for_fptr env st pointer True of
        Inl e \<Rightarrow> Inl e
      | Inr (st1, Some (slide, Section, context1)) \<Rightarrow>
          (let frames1 = frames0\<lparr>ci := lookupCodeInstance st1 pointer\<rparr>
           in case lookup_pointer env Section context1 frames1 pointer slide True noInline of
                Inl e \<Rightarrow> Inl e
              | Inr (nf, frames) \<Rightarrow> Inr (st1, nf, frames))
      | Inr (st1, None) \<Rightarrow>
          (case jl_getDylibFunctionInfo env st1 frames0 pointer skipC noInline of
             Inl e \<Rightarrow> Inl e
           | Inr (nf, frames) \<Rightarrow> Inr (st1, nf, frames)))"

section \<open>Notions for stating the properties of the registry\<close>

text \<open>
  The registry as the constructor leaves it: every map empty.
\<close>

definition empty_registry :: registry where
  "empty_registry = \<lparr>codeinst_in_flight = Map.empty, cimap = [], objectmap = [],
                      image_info = Map.empty, images = Map.empty, next_image = 0,
                      jit_bytes = 0, registered_frames = [], dyn_registered = []\<rparr>"

text \<open>
  The keys of an ordered map descend strictly along its entries.
\<close>

definition rev_map_ordered :: "'v rev_map \<Rightarrow> bool" where
  "rev_map_ordered m \<longleftrightarrow> sorted_wrt (\<lambda>k k'. k > k') (map fst m)"

text \<open>
  A symbol that the loop of \<^verbatim>\<open>registerJITObject\<close> does not skip: a function in a text
  section. \<open>resolved_address\<close> is the address the loop computes for it, the symbol's address
  moved from where the object places its section to where the section is loaded.
\<close>

definition registrable :: "symbol_ref \<Rightarrow> bool" where
  "registrable symbol \<longleftrightarrow>
     sym_type symbol = ST_Function \<and>
     (case sym_section symbol of None \<Rightarrow> False | Some Section \<Rightarrow> sec_isText Section)"

definition resolved_address :: "(string \<Rightarrow> 64 word) \<Rightarrow> symbol_ref \<Rightarrow> 64 word" where
  "resolved_address getLoadAddress symbol =
     (case sym_section symbol of
        None \<Rightarrow> sym_address symbol
      | Some Section \<Rightarrow>
          sym_address symbol + (getLoadAddress (sec_name Section) - sec_address Section))"

text \<open>
  What holds of a registry between calls: both ordered maps are ordered, and every
  section record points to an image that is in the store, below the next address
  that \<^verbatim>\<open>new\<close> hands out.
\<close>

definition registry_ok :: "registry \<Rightarrow> bool" where
  "registry_ok st \<longleftrightarrow>
     rev_map_ordered (cimap st) \<and> rev_map_ordered (objectmap st) \<and>
     (\<forall>(k, si) \<in> set (objectmap st).
        si_object si \<in> dom (images st) \<and> si_object si < next_image st)"

text \<open>
  An environment for the examples: names are mangled to themselves, every symbol is
  sixteen bytes long, there is no compression codec, nothing parses as an object file,
  the dynamic loader knows no address, and the lock is free.
\<close>

definition plain_environment :: environment where
  "plain_environment =
     \<lparr>mangle = (\<lambda>name. name),
      computeSymbolSizes = (\<lambda>obj. map (\<lambda>symbol. (symbol, 16)) (obj_symbols obj)),
      zstd_isAvailable = False,
      zlib_isAvailable = False,
      compress = (\<lambda>F unpacked. unpacked),
      decompress = (\<lambda>F packed n. None),
      createObjectFile = (\<lambda>buf. None),
      DWARFContext_create = (\<lambda>obj. \<lparr>getInliningInfoForAddress = (\<lambda>a. []),
                                     getLineInfoForAddress =
                                       (\<lambda>a. \<lparr>FileName = ''<invalid>'',
                                             FunctionName = ''<invalid>'', Line = 0\<rparr>)\<rparr>),
      lock_profile_wr = True,
      dladdr1 = (\<lambda>pointer. None),
      jl_sysimg_val_mask = 0x7FFFFFFF,
      find_object_file = (\<lambda>fbase fname. \<lparr>oe_obj = None, oe_ctx = None, oe_slide = 0\<rparr>),
      get_function_name_and_base = (\<lambda>Section pointer slide inimage saddr name. (saddr, name))\<rparr>"

text \<open>
  Example objects: one text section at address 0 and, in it, the function \<^verbatim>\<open>X\<close> at
  \<open>0x1000\<close>, followed in the second object by the function \<^verbatim>\<open>Y\<close> at \<open>0x1010\<close>; and an
  object that has a data symbol only.
\<close>

definition text_section :: section_ref where
  "text_section = \<lparr>sec_name = ''.text'', sec_address = 0, sec_size = 0x2000,
                    sec_isText = True, sec_isVirtual = False, sec_index = 1,
                    sec_contents = None\<rparr>"

definition function_X :: symbol_ref where
  "function_X = \<lparr>sym_type = ST_Function, sym_address = 0x1000,
                  sym_section = Some text_section, sym_name = ''X''\<rparr>"

definition function_Y :: symbol_ref where
  "function_Y = \<lparr>sym_type = ST_Function, sym_address = 0x1010,
                  sym_section = Some text_section, sym_name = ''Y''\<rparr>"

definition one_function_object :: object_file where
  "one_function_object = \<lparr>obj_format = ELF, obj_symbols = [function_X],
                           obj_sections = [text_section], obj_data = [1, 2, 3]\<rparr>"

definition two_function_object :: object_file where
  "two_function_object = \<lparr>obj_format = ELF, obj_symbols = [function_X, function_Y],
                           obj_sections = [text_section], obj_data = [1, 2, 3]\<rparr>"

definition data_only_object :: object_file where
  "data_only_object =
     \<lparr>obj_format = ELF,
      obj_symbols = [\<lparr>sym_type = ST_Data, sym_address = 0x40, sym_section = None,
                      sym_name = ''table''\<rparr>],
      obj_sections = [], obj_data = [1, 2, 3]\<rparr>"

section \<open>Theorems about the record walk\<close>

lemma length_le_bytes [simp]: "length (le_bytes n v) = n"
  by (induction n arbitrary: v) auto

lemma le_nat_le_bytes: "le_nat (le_bytes n v) = v mod 256 ^ n"
proof (induction n arbitrary: v)
  case 0
  show ?case by simp
next
  case (Suc n)
  have "unat (of_nat (v mod 256) :: byte) = v mod 256"
    by (simp add: unat_of_nat)
  then show ?case
    using Suc [of "v div 256"] by (simp add: mod_mult2_eq)
qed

lemma le_bytes_4:
  "le_bytes 4 v = [of_nat (v mod 256), of_nat (v div 256 mod 256),
     of_nat (v div 256 div 256 mod 256), of_nat (v div 256 div 256 div 256 mod 256)]"
proof -
  have "(4::nat) = Suc (Suc (Suc (Suc 0)))"
    by simp
  then have "le_bytes 4 v = le_bytes (Suc (Suc (Suc (Suc 0)))) v"
    by (rule arg_cong)
  then show ?thesis by simp
qed

lemma load_le_at:
  "length bs = n \<Longrightarrow> load_le n (pre @ bs @ rest) (length pre) = Some (le_nat bs)"
  by (simp add: load_le_def)

lemma read_u32_le_bytes:
  "read_u32 (pre @ le_bytes 4 v @ rest) (length pre) = Some (of_nat v)"
proof -
  have "(of_nat (v mod 256 ^ 4) :: 32 word) = of_nat v"
    by (simp add: word_eq_iff_unsigned [where ?'a = nat] unat_of_nat)
  then show ?thesis
    by (simp add: read_u32_def load_le_at le_nat_le_bytes)
qed

lemma length_encode_record: "length (encode_record r) = 8 + length (snd r)"
  by (simp add: encode_record_def)

lemma walk_records:
  assumes "\<forall>r \<in> set rs. 4 + length (snd r) < 2 ^ 32"
    and "(tail = [] \<and> rs \<noteq> []) \<or> (\<exists>junk. tail = le_bytes 4 0 @ junk)"
  shows "processFDEs_loop (pre @ concat (map encode_record rs) @ tail)
           (length (pre @ concat (map encode_record rs) @ tail)) f (length pre) s
         = visit_all f (fde_entries (length pre) rs) s"
  using assms
proof (induction rs arbitrary: pre s)
  case Nil
  then obtain junk where t: "tail = le_bytes 4 0 @ junk" by auto
  have "read_u32 (pre @ le_bytes 4 0 @ junk) (length pre) = Some 0"
    using read_u32_le_bytes [of pre 0 junk] by simp
  then show ?case
    by (subst processFDEs_loop.simps) (simp add: t)
next
  case (Cons r rs)
  obtain i body where r: "r = (i, body)" by (cases r)
  let ?rest = "concat (map encode_record rs) @ tail"
  let ?mem = "pre @ concat (map encode_record (r # rs)) @ tail"
  have small: "4 + length body < 2 ^ 32" using Cons.prems(1) r by simp
  have mem1: "?mem = pre @ le_bytes 4 (4 + length body) @ (le_bytes 4 (unat i) @ body @ ?rest)"
    by (simp add: r encode_record_def)
  have mem2: "?mem = (pre @ le_bytes 4 (4 + length body)) @ le_bytes 4 (unat i) @ (body @ ?rest)"
    by (simp add: r encode_record_def)
  have mem3: "?mem = (pre @ encode_record r) @ concat (map encode_record rs) @ tail"
    by simp
  have len: "read_u32 ?mem (length pre) = Some (of_nat (4 + length body))"
    unfolding mem1 by (rule read_u32_le_bytes)
  have off: "read_u32 ?mem (length pre + 4) = Some i"
    using read_u32_le_bytes [of "pre @ le_bytes 4 (4 + length body)" "unat i" "body @ ?rest"]
    unfolding mem2 [symmetric] by simp
  have ulen: "unat (of_nat (4 + length body) :: 32 word) = 4 + length body"
    using small unat_of_nat [where ?'a = 32, of "4 + length body"] by simp
  have nz: "(of_nat (4 + length body) :: 32 word) \<noteq> 0"
    using ulen by (metis add_is_0 unat_0 zero_neq_numeral)
  have total: "length ?mem = length pre + 8 + length body + length ?rest"
    by (simp add: r length_encode_record)
  have rest_cases: "?rest = [] \<and> rs = [] \<and> tail = [] \<or> 4 \<le> length ?rest"
  proof (cases rs)
    case Nil
    then show ?thesis using Cons.prems(2) by auto
  next
    case (Cons r' rs')
    then show ?thesis by (simp add: length_encode_record)
  qed
  have tail': "length ?rest \<noteq> 0 \<Longrightarrow> (tail = [] \<and> rs \<noteq> []) \<or> (\<exists>junk. tail = le_bytes 4 0 @ junk)"
    using Cons.prems(2) by auto
  have IH: "length ?rest \<noteq> 0 \<Longrightarrow>
      processFDEs_loop ?mem (length ?mem) f (length pre + 8 + length body) s'
        = visit_all f (fde_entries (length pre + 8 + length body) rs) s'" for s'
    using Cons.IH [of "pre @ encode_record r" s'] Cons.prems(1) tail'
    unfolding mem3 [symmetric] by (simp add: r length_encode_record add.assoc)
  have fin: "length ?rest = 0 \<Longrightarrow> fde_entries k rs = []" for k
  proof -
    assume "length ?rest = 0"
    with rest_cases have "rs = []" by linarith
    then show ?thesis by simp
  qed
  show ?case
    apply (subst processFDEs_loop.simps)
    apply (simp only: len off Let_def option.case ulen total)
    using nz IH fin
    apply (auto simp: r length_encode_record add.assoc split: sum.splits)
    done
qed

text \<open>
  Claim C7. A region that holds the records \<open>rs\<close> one after the other and then either
  ends (after at least one record) or continues with a record of length 0 is walked
  like this: the visitor is run on the offset of every record whose 4-byte field after
  the length is not zero (an FDE), in the order of the region, and on nothing else; the
  records whose field is zero (CIEs) are skipped, and whatever follows a length of 0 is
  never read.
\<close>

theorem processFDEs_visits_exactly_the_FDEs:
  assumes "\<forall>r \<in> set rs. 4 + length (snd r) < 2 ^ 32"
    and "(tail = [] \<and> rs \<noteq> []) \<or> (\<exists>junk. tail = le_bytes 4 0 @ junk)"
    and "mem = concat (map encode_record rs) @ tail"
  shows "processFDEs mem (length mem) f s = visit_all f (fde_entries 0 rs) s"
  using walk_records [OF assms(1) assms(2), of "[]" f s] assms(3)
  by (simp add: processFDEs_def)

theorem processFDEs_visits_exactly_the_FDEs_witness:
  "processFDEs
     (encode_record (0, [1, 2]) @ encode_record (12, [7]) @ encode_record (0, []) @
      encode_record (5, []) @ [0, 0, 0, 0, 9, 9])
     41 (\<lambda>e es. Inr (es @ [e])) [] = Inr [10, 27]"
proof -
  let ?rs = "[(0, [1, 2]), (12, [7]), (0, []), (5, [])] :: cfi_record list"
  have "processFDEs (concat (map encode_record ?rs) @ (le_bytes 4 0 @ [9, 9]))
          (length (concat (map encode_record ?rs) @ (le_bytes 4 0 @ [9, 9])))
          (\<lambda>e es. Inr (es @ [e])) []
        = visit_all (\<lambda>e es. Inr (es @ [e])) (fde_entries 0 ?rs) []"
    by (rule processFDEs_visits_exactly_the_FDEs) auto
  moreover have "fde_entries 0 ?rs = [10, 27]"
    by (simp add: length_encode_record)
  moreover have "length (concat (map encode_record ?rs) @ (le_bytes 4 0 @ [9, 9])) = 41"
    by (simp add: length_encode_record)
  moreover have "le_bytes 4 0 = [0, 0, 0, 0]"
    by (simp add: le_bytes_4)
  ultimately show ?thesis
    by simp
qed

section \<open>Theorems about LEB128 decoding\<close>

lemma bit_int_7f: "bit (0x7f :: int) m \<longleftrightarrow> m < 7"
proof -
  have e: "(0x7f :: int) = mask 7" by (simp add: mask_eq_exp_minus_1)
  have "bit (mask 7 :: int) m \<longleftrightarrow> m < 7"
    by (simp only: bit_mask_iff) auto
  then show ?thesis by (simp only: e)
qed

lemma and_7f: "(b :: byte) AND 0x7f = take_bit 7 b"
  by (rule bit_eqI) (auto simp add: bit_and_iff bit_take_bit_iff bit_int_7f)

lemma and_80: "((a :: byte) AND 0x80 = 0) = (\<not> bit a 7)"
proof -
  have "(0x80 :: byte) = 2 ^ 7" by simp
  then show ?thesis by (simp only: and_exp_eq_0_iff_not_bit)
qed

lemma and_40: "((a :: byte) AND 0x40 = 0) = (\<not> bit a 6)"
proof -
  have "(0x40 :: byte) = 2 ^ 6" by simp
  then show ?thesis by (simp only: and_exp_eq_0_iff_not_bit)
qed

lemma bit_leb128_payload_Cons:
  "bit (leb128_payload (b # bs)) n \<longleftrightarrow> (if n < 7 then bit b n else bit (leb128_payload bs) (n - 7))"
proof -
  have a: "unat (b AND 0x7f) = take_bit 7 (unat b)"
    by (simp only: and_7f unsigned_take_bit_eq)
  have "leb128_payload (b # bs) = take_bit 7 (unat b) + push_bit 7 (leb128_payload bs)"
    by (simp add: a push_bit_eq_mult)
  also have "\<dots> = take_bit 7 (unat b) OR push_bit 7 (leb128_payload bs)"
    by (rule disjunctive_add) (auto simp: bit_take_bit_iff bit_push_bit_iff)
  finally show ?thesis
    by (auto simp: bit_or_iff bit_take_bit_iff bit_push_bit_iff bit_unsigned_iff)
qed

lemma bit_group:
  "bit (push_bit (i * 7) (ucast ((a :: byte) AND 0x7f)) :: 64 word) n
     \<longleftrightarrow> n < 64 \<and> i * 7 \<le> n \<and> n < i * 7 + 7 \<and> bit a (n - i * 7)"
  by (auto simp: and_7f bit_push_bit_iff bit_ucast_iff bit_take_bit_iff dest: bit_imp_le_length)

lemma bit_sign_fill:
  "bit (- (push_bit k 1) :: 64 word) n \<longleftrightarrow> n < 64 \<and> k \<le> n"
proof -
  have "- (push_bit k 1 :: 64 word) = NOT (mask k)"
    by (simp add: minus_exp_eq_not_mask push_bit_eq_mult)
  then show ?thesis
    by (auto simp: bit_not_iff bit_mask_iff)
qed

lemma leb128_groups_nonempty:
  "leb128_groups (Suc cap) room (b # bs) \<noteq> []"
  by simp

lemma leb128_groups_length: "length (leb128_groups cap room bs) \<le> cap"
  by (induction cap room bs rule: leb128_groups.induct) auto

lemma drop_read_u8:
  "read_u8 mem p = Some a \<Longrightarrow> drop p mem = a # drop (p + 1) mem"
  by (auto simp: read_u8_def Cons_nth_drop_Suc split: if_splits)

lemma consume_leb128_loop_ge:
  "consume_leb128_loop mem End P = Inr P' \<Longrightarrow> P < P'"
proof (induction mem End P rule: consume_leb128_loop.induct)
  case (1 mem End P)
  from "1.prems" show ?case
    by (subst (asm) consume_leb128_loop.simps)
       (auto split: option.splits if_splits dest!: "1.IH")
qed

lemma parse_leb128_loop_bits:
  assumes "parse_leb128_loop sg mem End i Addr v = Inr (r, Addr')"
    and "\<forall>n. bit v n \<longrightarrow> n < i * 7"
    and "i \<le> 10"
  shows "Addr + length (leb128_groups (10 - i) (End - Addr) (drop Addr mem)) \<le> Addr' \<and>
    (\<forall>n < 64. bit r n =
       (if n < i * 7 then bit v n
        else if n < (i + length (leb128_groups (10 - i) (End - Addr) (drop Addr mem))) * 7
          then bit (leb128_payload (leb128_groups (10 - i) (End - Addr) (drop Addr mem))) (n - i * 7)
        else sg \<and> bit (last (leb128_groups (10 - i) (End - Addr) (drop Addr mem))) 6))"
  using assms
proof (induction sg mem End i Addr v arbitrary: r Addr' rule: parse_leb128_loop.induct)
  case (1 sg mem End i Addr v)
  show ?case
  proof (cases "i < 10")
    case False
    with "1.prems" have i: "i = 10" by simp
    from "1.prems"(1) have "r = v"
      by (subst (asm) parse_leb128_loop.simps) (auto simp: i split: sum.splits)
    moreover from "1.prems"(1) have "Addr \<le> Addr'"
      by (subst (asm) parse_leb128_loop.simps)
         (auto simp: i consume_leb128_def split: sum.splits dest: consume_leb128_loop_ge)
    ultimately show ?thesis by (simp add: i)
  next
    case True
    then obtain k where k: "10 - i = Suc k" and k': "k = 9 - i"
      by (cases "10 - i") auto
    from "1.prems"(1) True obtain a where a: "read_u8 mem Addr = Some a"
      by (subst (asm) parse_leb128_loop.simps) (auto split: option.splits)
    note dr = drop_read_u8 [OF a]
    define v1 where "v1 = v OR push_bit (i * 7) (ucast (a AND 0x7f))"
    have v1_bits: "bit v1 n \<longleftrightarrow> bit v n \<or> (n < 64 \<and> i * 7 \<le> n \<and> n < i * 7 + 7 \<and> bit a (n - i * 7))" for n
      by (simp add: v1_def bit_or_iff bit_group)
    have vlow: "bit v n \<Longrightarrow> n < i * 7" for n
      using "1.prems"(2) by blast
    show ?thesis
    proof (cases "a AND 0x80 = 0 \<or> Addr + 1 \<ge> End")
      case stop: True
      then have gs: "leb128_groups (10 - i) (End - Addr) (drop Addr mem) = [a]"
        by (auto simp: k dr)
      define fill :: "64 word" where "fill = - (push_bit ((i + 1) * 7) 1)"
      define pl where "pl = leb128_payload [a]"
      have fill_bits: "bit fill n \<longleftrightarrow> n < 64 \<and> (i + 1) * 7 \<le> n" for n
        unfolding fill_def by (rule bit_sign_fill)
      have p: "bit pl m \<longleftrightarrow> m < 7 \<and> bit a m" for m
        unfolding pl_def using bit_leb128_payload_Cons [of a "[]" m] by auto
      have res: "Addr' = Addr + 1 \<and>
          r = (if \<not> a AND 0x40 = 0 \<and> sg \<and> (i + 1) * 7 < 64 then v1 OR fill else v1)"
        using "1.prems"(1) True stop
        by (subst (asm) parse_leb128_loop.simps)
           (auto simp: a v1_def fill_def Let_def split: if_splits)
      have "bit r n = (if n < i * 7 then bit v n
              else if n < (i + 1) * 7 then bit pl (n - i * 7)
              else sg \<and> bit a 6)" if "n < 64" for n
      proof (cases "\<not> a AND 0x40 = 0 \<and> sg \<and> (i + 1) * 7 < 64")
        case True
        then have "r = v1 OR fill" using res by auto
        then show ?thesis
          using that vlow [of n] True
          by (auto simp: bit_or_iff fill_bits v1_bits p and_40)
      next
        case False
        then have "r = v1" using res by auto
        then show ?thesis
          using that vlow [of n] False
          by (auto simp: v1_bits p and_40)
      qed
      then show ?thesis
        using res by (simp add: gs pl_def)
    next
      case go: False
      then have gs: "leb128_groups (10 - i) (End - Addr) (drop Addr mem)
          = a # leb128_groups (9 - i) (End - (Addr + 1)) (drop (Addr + 1) mem)"
        by (auto simp: k k' dr)
      define gsr where "gsr = leb128_groups (10 - (i + 1)) (End - (Addr + 1)) (drop (Addr + 1) mem)"
      define L where "L = length gsr"
      define pl' where "pl' = leb128_payload gsr"
      define pl where "pl = leb128_payload (a # gsr)"
      have pl_bits: "bit pl m = (if m < 7 then bit a m else bit pl' (m - 7))" for m
        unfolding pl_def pl'_def by (rule bit_leb128_payload_Cons)
      have rec: "parse_leb128_loop sg mem End (i + 1) (Addr + 1) v1 = Inr (r, Addr')"
        using "1.prems"(1) True go
        by (subst (asm) parse_leb128_loop.simps) (auto simp: a v1_def Let_def)
      have v1low: "\<forall>n. bit v1 n \<longrightarrow> n < (i + 1) * 7"
      proof (intro allI impI)
        fix n assume "bit v1 n"
        then consider "bit v n" | "n < i * 7 + 7" by (auto simp: v1_bits)
        then show "n < (i + 1) * 7"
        proof cases
          case 1
          from vlow [OF this] show ?thesis by simp
        next
          case 2
          then show ?thesis by simp
        qed
      qed
      have IH0: "Addr + 1 + length gsr \<le> Addr' \<and>
        (\<forall>n<64. bit r n =
           (if n < (i + 1) * 7 then bit v1 n
            else if n < (i + 1 + length gsr) * 7 then bit (leb128_payload gsr) (n - (i + 1) * 7)
            else sg \<and> bit (last gsr) 6))"
        unfolding gsr_def
        using "1.IH" [OF _ a refl v1_def go rec v1low] True by simp
      then have IHa: "Addr + 1 + L \<le> Addr'"
        and IHn: "\<And>n. n < 64 \<Longrightarrow> bit r n =
           (if n < (i + 1) * 7 then bit v1 n
            else if n < (i + 1 + L) * 7 then bit pl' (n - (i + 1) * 7)
            else sg \<and> bit (last gsr) 6)"
        by (simp_all add: L_def pl'_def)
      have ne: "gsr \<noteq> []" if "n < 64" "\<not> n < (i + 1 + L) * 7" for n
      proof
        assume e: "gsr = []"
        with that have "i + 1 < 10" by (simp add: L_def)
        then obtain k2 where k2: "10 - (i + 1) = Suc k2" by (cases "10 - (i + 1)") auto
        from rec \<open>i + 1 < 10\<close> obtain a2 where "read_u8 mem (Addr + 1) = Some a2"
          by (subst (asm) parse_leb128_loop.simps) (auto split: option.splits)
        from drop_read_u8 [OF this]
        have "gsr = leb128_groups (Suc k2) (End - (Addr + 1)) (a2 # drop (Addr + 1 + 1) mem)"
          by (simp only: k2 gsr_def)
        with e show False
          using leb128_groups_nonempty by metis
      qed
      have lst: "last (a # gsr) = last gsr" if "n < 64" "\<not> n < (i + 1 + L) * 7" for n
        using ne [OF that] by simp
      have main: "bit r n = (if n < i * 7 then bit v n
              else if n < (i + 1 + L) * 7 then bit pl (n - i * 7)
              else sg \<and> bit (last (a # gsr)) 6)" if "n < 64" for n
      proof -
        have eq: "n - i * 7 - 7 = n - (i + 1) * 7" by simp
        consider "n < i * 7" | "i * 7 \<le> n" "n < (i + 1) * 7"
          | "(i + 1) * 7 \<le> n" "n < (i + 1 + L) * 7" | "\<not> n < (i + 1 + L) * 7"
          by linarith
        then show ?thesis
        proof cases
          case 1
          then show ?thesis using IHn [OF that] by (auto simp: v1_bits)
        next
          case 2
          then show ?thesis using IHn [OF that] vlow [of n] that
            by (auto simp: v1_bits pl_bits)
        next
          case 3
          then show ?thesis using IHn [OF that] by (auto simp: pl_bits add.commute)
        next
          case 4
          then show ?thesis using IHn [OF that] lst [OF that 4] by auto
        qed
      qed
      have gs2: "leb128_groups (10 - i) (End - Addr) (drop Addr mem) = a # gsr"
        unfolding gsr_def using gs by simp
      show ?thesis
        unfolding gs2 using IHa main by (simp add: L_def pl_def)
    qed
  qed
qed

lemma consume_leb128_loop_returns:
  "P < length mem \<Longrightarrow> End < length mem \<Longrightarrow> \<exists>P'. consume_leb128_loop mem End P = Inr P'"
proof (induction mem End P rule: consume_leb128_loop.induct)
  case (1 mem End P)
  then have r: "read_u8 mem P = Some (mem ! P)" by (simp add: read_u8_def)
  show ?case
  proof (cases "drop_bit 7 (mem ! P) \<noteq> 0 \<and> P < End")
    case True
    with "1.prems" have "\<exists>P'. consume_leb128_loop mem End (P + 1) = Inr P'"
      by (intro "1.IH" [OF r]) auto
    with True r show ?thesis
      by (subst consume_leb128_loop.simps) simp
  next
    case False
    with r show ?thesis
      by (subst consume_leb128_loop.simps) auto
  qed
qed

lemma parse_leb128_loop_returns:
  "Addr < length mem \<Longrightarrow> End < length mem \<Longrightarrow>
   \<exists>v' P. parse_leb128_loop sg mem End i Addr v = Inr (v', P)"
proof (induction sg mem End i Addr v rule: parse_leb128_loop.induct)
  case (1 sg mem End i Addr v)
  then have r: "read_u8 mem Addr = Some (mem ! Addr)" by (simp add: read_u8_def)
  show ?case
  proof (cases "i < 10")
    case False
    with consume_leb128_loop_returns [OF "1.prems"] show ?thesis
      by (subst parse_leb128_loop.simps) (auto simp: consume_leb128_def)
  next
    case i: True
    show ?thesis
    proof (cases "mem ! Addr AND 0x80 = 0 \<or> Addr + 1 \<ge> End")
      case True
      with i r show ?thesis
        by (subst parse_leb128_loop.simps) (auto simp: Let_def)
    next
      case False
      with "1.prems" i
      have "\<exists>v' P. parse_leb128_loop sg mem End (i + 1) (Addr + 1)
               (v OR push_bit (i * 7) (ucast (mem ! Addr AND 0x7f))) = Inr (v', P)"
        by (intro "1.IH" [OF _ r refl refl]) auto
      with False i r show ?thesis
        by (subst parse_leb128_loop.simps) (auto simp: Let_def)
    qed
  qed
qed

lemma parse_leb128_returns:
  "Addr < length mem \<Longrightarrow> End < length mem \<Longrightarrow>
   \<exists>v P. parse_leb128 sg mem Addr End = Inr (v, P)"
  unfolding parse_leb128_def by (rule parse_leb128_loop_returns)



section \<open>Theorems about the FDE fields\<close>

lemma bit_nat_below: "(n::nat) < 2 ^ m \<Longrightarrow> bit n k \<Longrightarrow> k < m"
  by (metis bit_take_bit_iff take_bit_nat_eq_self)

lemma bit_add_exp_nat:
  assumes "(m::nat) < 2 ^ j"
  shows "bit (m + 2 ^ j) k \<longleftrightarrow> bit m k \<or> k = j"
proof -
  have "m + 2 ^ j = m OR 2 ^ j"
  proof (rule disjunctive_add)
    fix n show "\<not> bit m n \<or> \<not> bit ((2::nat) ^ j) n"
      using bit_nat_below [OF assms, of n] by (auto simp only: bit_exp_iff)
  qed
  then show ?thesis by (auto simp: bit_or_iff bit_exp_iff)
qed

lemma byte_of_nat_bits: "bit (of_nat n :: byte) k \<longleftrightarrow> k < 8 \<and> bit n k"
  by (simp add: bit_of_nat_iff)

lemma small_bits: "m < 128 \<Longrightarrow> bit (of_nat m :: 64 word) j \<Longrightarrow> j < 7"
  using bit_nat_below [of m 7 j] by (simp add: bit_of_nat_iff)

lemma cont_byte:
  assumes "m < 128"
  shows "\<not> (of_nat (m + 128) :: byte) AND 0x80 = 0"
    and "ucast ((of_nat (m + 128) :: byte) AND 0x7f) = (of_nat m :: 64 word)"
proof -
  have lo: "bit m k \<Longrightarrow> k < 7" for k
    using bit_nat_below [of m 7 k] assms by simp
  have b: "bit (m + 128) k \<longleftrightarrow> bit m k \<or> k = 7" for k
    using bit_add_exp_nat [of m 7 k] assms by simp
  show "\<not> (of_nat (m + 128) :: byte) AND 0x80 = 0"
    unfolding and_80 by (simp only: byte_of_nat_bits b) simp
  show "ucast ((of_nat (m + 128) :: byte) AND 0x7f) = (of_nat m :: 64 word)"
    unfolding and_7f
  proof (rule bit_eqI)
    fix k
    show "bit (ucast (take_bit 7 (of_nat (m + 128) :: byte)) :: 64 word) k = bit (of_nat m :: 64 word) k"
      using lo [of k]
      by (auto simp only: bit_ucast_iff bit_take_bit_iff byte_of_nat_bits b bit_of_nat_iff)
         (auto simp: possible_bit_def)
  qed
qed

lemma last_byte:
  assumes "m < 128"
  shows "(of_nat m :: byte) AND 0x80 = 0"
    and "ucast ((of_nat m :: byte) AND 0x7f) = (of_nat m :: 64 word)"
    and "(of_nat m :: byte) AND 0x40 = 0 \<longleftrightarrow> m < 64"
proof -
  have lo: "bit m k \<Longrightarrow> k < 7" for k
    using bit_nat_below [of m 7 k] assms by simp
  have "\<not> bit m 7" using lo [of 7] by auto
  then show "(of_nat m :: byte) AND 0x80 = 0"
    unfolding and_80 by (simp add: byte_of_nat_bits)
  show "ucast ((of_nat m :: byte) AND 0x7f) = (of_nat m :: 64 word)"
    unfolding and_7f
  proof (rule bit_eqI)
    fix k
    show "bit (ucast (take_bit 7 (of_nat m :: byte)) :: 64 word) k = bit (of_nat m :: 64 word) k"
      using lo [of k]
      by (auto simp only: bit_ucast_iff bit_take_bit_iff byte_of_nat_bits bit_of_nat_iff)
         (auto simp: possible_bit_def)
  qed
  have "bit m 6 \<longleftrightarrow> \<not> m < 64"
  proof
    assume "bit m 6"
    show "\<not> m < 64"
    proof
      assume "m < 64"
      from bit_nat_below [of m 6 6] this \<open>bit m 6\<close> show False by simp
    qed
  next
    assume "\<not> m < 64"
    then have "m div 2 ^ 6 = 1" using assms by simp
    then show "bit m 6" by (simp add: bit_iff_odd)
  qed
  then show "(of_nat m :: byte) AND 0x40 = 0 \<longleftrightarrow> m < 64"
    unfolding and_40 by (simp add: byte_of_nat_bits)
qed

lemma bit_push_small:
  assumes "m < 128" and "bit (push_bit (i * 7) (of_nat m) :: 64 word) k"
  shows "k < i * 7 + 7"
proof -
  from assms(2) have "i * 7 \<le> k" and "bit (of_nat m :: 64 word) (k - i * 7)"
    by (auto simp: bit_push_bit_iff)
  with small_bits [OF assms(1), of "k - i * 7"] show ?thesis by simp
qed

lemma split_group:
  "(push_bit (i * 7) (of_nat (n mod 128)) OR push_bit ((i + 1) * 7) (of_nat (n div 128)) :: 64 word)
     = push_bit (i * 7) (of_nat n)"
proof -
  have A: "(push_bit (i * 7) (of_nat (n mod 128)) OR push_bit ((i + 1) * 7) (of_nat (n div 128)) :: 64 word)
      = push_bit (i * 7) (of_nat (n mod 128)) + push_bit ((i + 1) * 7) (of_nat (n div 128))"
  proof (rule disjunctive_add [symmetric])
    fix k
    show "\<not> bit (push_bit (i * 7) (of_nat (n mod 128)) :: 64 word) k
        \<or> \<not> bit (push_bit ((i + 1) * 7) (of_nat (n div 128)) :: 64 word) k"
      using bit_push_small [of "n mod 128" i k] by (auto simp: bit_push_bit_iff)
  qed
  have B: "push_bit ((i + 1) * 7) (of_nat (n div 128) :: 64 word)
      = push_bit (i * 7) (128 * of_nat (n div 128))"
    by (simp add: push_bit_eq_mult power_add)
  have "n = n mod 128 + 128 * (n div 128)"
    by simp
  then have "(of_nat n :: 64 word) = of_nat (n mod 128 + 128 * (n div 128))"
    by (rule arg_cong)
  then have E: "(of_nat n :: 64 word) = of_nat (n mod 128) + 128 * of_nat (n div 128)"
    by (simp only: of_nat_add of_nat_mult of_nat_numeral)
  let ?a = "of_nat (n mod 128) :: 64 word" and ?c = "of_nat (n div 128) :: 64 word"
  have "push_bit (i * 7) ?a OR push_bit ((i + 1) * 7) ?c
      = push_bit (i * 7) ?a + push_bit ((i + 1) * 7) ?c"
    by (rule A)
  also have "push_bit (i * 7) ?a + push_bit ((i + 1) * 7) ?c
      = push_bit (i * 7) ?a + push_bit (i * 7) (128 * ?c)"
    by (simp only: B)
  also have "push_bit (i * 7) ?a + push_bit (i * 7) (128 * ?c) = push_bit (i * 7) (?a + 128 * ?c)"
    by (simp only: push_bit_add)
  also have "push_bit (i * 7) (?a + 128 * ?c) = push_bit (i * 7) (of_nat n)"
    by (simp only: E [symmetric])
  finally show ?thesis .
qed

lemma read_u8_at: "read_u8 (pre @ b # rest) (length pre) = Some b"
  by (simp add: read_u8_def)

lemma uleb128_encode_nonempty: "1 \<le> length (uleb128_encode n)"
  by (subst uleb128_encode.simps) simp

lemma uleb128_encode_length:
  "n < 2 ^ (7 * k) \<Longrightarrow> 1 \<le> k \<Longrightarrow> length (uleb128_encode n) \<le> k"
proof (induction n arbitrary: k rule: uleb128_encode.induct)
  case (1 n)
  show ?case
  proof (cases "n < 128")
    case True
    then show ?thesis using "1.prems" by (subst uleb128_encode.simps) simp
  next
    case False
    with "1.prems" have "k \<noteq> 1" by auto
    with "1.prems" obtain j where k: "k = Suc j" and j: "1 \<le> j" by (cases k) auto
    from "1.prems"(1) have "n < 128 * 2 ^ (7 * j)" by (simp add: k power_add)
    then have "n div 128 < 2 ^ (7 * j)" by (simp add: less_mult_imp_div_less mult.commute)
    from "1.IH" [OF False this j] False show ?thesis
      by (subst uleb128_encode.simps) (simp add: k)
  qed
qed

lemma uleb128_roundtrip_loop:
  assumes "mem = pre @ uleb128_encode n @ rest"
    and "length pre + length (uleb128_encode n) \<le> End"
    and "i + length (uleb128_encode n) \<le> 10"
  shows "parse_leb128_loop False mem End i (length pre) v
    = Inr (v OR push_bit (i * 7) (of_nat n), length pre + length (uleb128_encode n))"
  using assms
proof (induction n arbitrary: pre i v rule: uleb128_encode.induct)
  case (1 n)
  show ?case
  proof (cases "n < 128")
    case True
    define b :: byte where "b = of_nat n"
    have e: "uleb128_encode n = [b]"
      unfolding b_def using True by (subst uleb128_encode.simps) simp
    have r: "read_u8 mem (length pre) = Some b"
      using "1.prems"(1) by (simp add: e read_u8_at)
    have i: "i < 10" using "1.prems"(3) by (simp add: e)
    have b1: "b AND 0x80 = 0" and b2: "ucast (b AND 0x7f) = (of_nat n :: 64 word)"
      unfolding b_def by (rule last_byte [OF True])+
    show ?thesis
      by (subst parse_leb128_loop.simps) (simp add: r i e b1 b2 Let_def)
  next
    case False
    define b :: byte where "b = of_nat (n mod 128 + 128)"
    have e: "uleb128_encode n = b # uleb128_encode (n div 128)"
      unfolding b_def using False by (subst uleb128_encode.simps) simp
    have r: "read_u8 mem (length pre) = Some b"
      using "1.prems"(1) by (simp add: e read_u8_at)
    have i: "i < 10" using "1.prems"(3) by (simp add: e)
    have m: "n mod 128 < 128" by simp
    have b1: "\<not> b AND 0x80 = 0" and b2: "ucast (b AND 0x7f) = (of_nat (n mod 128) :: 64 word)"
      unfolding b_def by (rule cont_byte [OF m])+
    have notend: "\<not> End \<le> length pre + 1"
      using "1.prems"(2) uleb128_encode_nonempty [of "n div 128"] by (simp add: e)
    have IH: "parse_leb128_loop False mem End (i + 1) (length (pre @ [b]))
          (v OR push_bit (i * 7) (of_nat (n mod 128)))
        = Inr ((v OR push_bit (i * 7) (of_nat (n mod 128))) OR push_bit ((i + 1) * 7) (of_nat (n div 128)),
               length (pre @ [b]) + length (uleb128_encode (n div 128)))"
      using "1.prems" by (intro "1.IH" [OF False]) (simp_all add: e)
    have "parse_leb128_loop False mem End i (length pre) v
        = parse_leb128_loop False mem End (i + 1) (length pre + 1)
            (v OR push_bit (i * 7) (of_nat (n mod 128)))"
      using notend by (subst parse_leb128_loop.simps) (simp add: r i b1 b2 Let_def)
    also have "\<dots> = Inr ((v OR push_bit (i * 7) (of_nat (n mod 128))) OR push_bit ((i + 1) * 7) (of_nat (n div 128)),
               length pre + 1 + length (uleb128_encode (n div 128)))"
      using IH by simp
    finally have "parse_leb128_loop False mem End i (length pre) v
        = Inr ((v OR push_bit (i * 7) (of_nat (n mod 128))) OR push_bit ((i + 1) * 7) (of_nat (n div 128)),
               length pre + 1 + length (uleb128_encode (n div 128)))" .
    then have "parse_leb128_loop False mem End i (length pre) v
        = Inr (v OR push_bit (i * 7) (of_nat n), length pre + 1 + length (uleb128_encode (n div 128)))"
      by (simp only: or.assoc split_group)
    then show ?thesis
      by (simp add: e)
  qed
qed

lemma uleb128_roundtrip:
  assumes "mem = pre @ uleb128_encode n @ rest"
    and "length pre + length (uleb128_encode n) \<le> End"
    and "n < 2 ^ 64"
  shows "parse_leb128 False mem (length pre) End
    = Inr (of_nat n, length pre + length (uleb128_encode n))"
proof -
  have "n < 2 ^ (7 * 10)"
    using assms(3) by (rule less_le_trans) simp
  then have "length (uleb128_encode n) \<le> 10"
    by (rule uleb128_encode_length) simp
  then have "0 + length (uleb128_encode n) \<le> 10" by simp
  from uleb128_roundtrip_loop [OF assms(1) assms(2) this, of 0]
  show ?thesis by (simp add: parse_leb128_def)
qed

lemma split_group_word:
  assumes "m < 128"
  shows "(push_bit (i * 7) (of_nat m) OR push_bit ((i + 1) * 7) c :: 64 word)
     = push_bit (i * 7) (of_nat m + 128 * c)"
proof -
  have A: "(push_bit (i * 7) (of_nat m) OR push_bit ((i + 1) * 7) c :: 64 word)
      = push_bit (i * 7) (of_nat m) + push_bit ((i + 1) * 7) c"
  proof (rule disjunctive_add [symmetric])
    fix k
    show "\<not> bit (push_bit (i * 7) (of_nat m) :: 64 word) k \<or> \<not> bit (push_bit ((i + 1) * 7) c :: 64 word) k"
      using bit_push_small [OF assms, of i k] by (auto simp: bit_push_bit_iff)
  qed
  have B: "push_bit ((i + 1) * 7) c = push_bit (i * 7) (128 * c)"
    by (simp add: push_bit_eq_mult power_add)
  have "push_bit (i * 7) (of_nat m) OR push_bit ((i + 1) * 7) c
      = push_bit (i * 7) (of_nat m) + push_bit ((i + 1) * 7) c"
    by (rule A)
  also have "push_bit (i * 7) (of_nat m) + push_bit ((i + 1) * 7) c
      = push_bit (i * 7) (of_nat m) + push_bit (i * 7) (128 * c)"
    by (simp only: B)
  also have "push_bit (i * 7) (of_nat m) + push_bit (i * 7) (128 * c) = push_bit (i * 7) (of_nat m + 128 * c)"
    by (simp only: push_bit_add)
  finally show ?thesis .
qed

lemma sign_fill_group:
  assumes "m < 128"
  shows "(push_bit (i * 7) (of_nat m) OR - (push_bit ((i + 1) * 7) 1) :: 64 word)
     = push_bit (i * 7) (of_nat m - 128)"
proof -
  let ?fill = "- (push_bit ((i + 1) * 7) 1) :: 64 word"
  have A: "push_bit (i * 7) (of_nat m) OR ?fill = push_bit (i * 7) (of_nat m) + ?fill"
  proof (rule disjunctive_add [symmetric])
    fix k
    show "\<not> bit (push_bit (i * 7) (of_nat m) :: 64 word) k \<or> \<not> bit ?fill k"
    proof (rule ccontr)
      assume "\<not> ?thesis"
      then have a: "bit (push_bit (i * 7) (of_nat m) :: 64 word) k" and b: "bit ?fill k"
        by blast+
      from bit_push_small [OF assms a] have "k < i * 7 + 7" .
      moreover from b have "(i + 1) * 7 \<le> k" by (simp only: bit_sign_fill)
      ultimately show False by simp
    qed
  qed
  have B: "?fill = push_bit (i * 7) (- 128)"
    by (simp add: push_bit_eq_mult power_add)
  have "push_bit (i * 7) (of_nat m) OR ?fill = push_bit (i * 7) (of_nat m) + ?fill"
    by (rule A)
  also have "push_bit (i * 7) (of_nat m) + ?fill
      = push_bit (i * 7) (of_nat m) + push_bit (i * 7) (- 128)"
    by (simp only: B)
  also have "push_bit (i * 7) (of_nat m) + push_bit (i * 7) (- 128 :: 64 word)
      = push_bit (i * 7) (of_nat m + - 128)"
    by (simp only: push_bit_add)
  finally show ?thesis by simp
qed

lemma sign_fill_zero:
  "64 \<le> (i + 1) * 7 \<Longrightarrow> - (push_bit ((i + 1) * 7) 1) = (0 :: 64 word)"
  by (rule bit_eqI) (auto simp only: bit_sign_fill bit_0_eq)

lemma sleb128_encode_nonempty: "1 \<le> length (sleb128_encode x)"
  by (subst sleb128_encode.simps) simp

lemma sleb128_encode_length:
  "- (2 ^ (7 * k + 6)) \<le> x \<Longrightarrow> x < 2 ^ (7 * k + 6) \<Longrightarrow> length (sleb128_encode x) \<le> k + 1"
proof (induction x arbitrary: k rule: sleb128_encode.induct)
  case (1 x)
  show ?case
  proof (cases "- 64 \<le> x \<and> x < 64")
    case True
    then show ?thesis by (subst sleb128_encode.simps) simp
  next
    case False
    have "k \<noteq> 0"
    proof
      assume "k = 0"
      with "1.prems" have "- 64 \<le> x \<and> x < 64" by simp
      with False show False by simp
    qed
    then obtain j where k: "k = Suc j" by (cases k) auto
    have p: "(2::int) ^ (7 * k + 6) = 128 * 2 ^ (7 * j + 6)"
      by (simp add: k power_add)
    from "1.prems"(2) have "x < 128 * 2 ^ (7 * j + 6)" by (simp only: p)
    then have hi: "x div 128 < 2 ^ (7 * j + 6)"
      by (simp add: div_less_iff_less_mult mult.commute)
    from "1.prems"(1) have "- (2 ^ (7 * j + 6)) * 128 \<le> x" by (simp add: p)
    then have "(- (2 ^ (7 * j + 6)) * 128) div 128 \<le> x div 128"
      by (rule zdiv_mono1) simp
    then have lo: "- (2 ^ (7 * j + 6)) \<le> x div 128"
      by simp
    from "1.IH" [OF False lo hi] False show ?thesis
      by (subst sleb128_encode.simps) (simp add: k)
  qed
qed

lemma sleb128_roundtrip_loop:
  assumes "mem = pre @ sleb128_encode x @ rest"
    and "length pre + length (sleb128_encode x) \<le> End"
    and "i + length (sleb128_encode x) \<le> 10"
  shows "parse_leb128_loop True mem End i (length pre) v
    = Inr (v OR push_bit (i * 7) (of_int x), length pre + length (sleb128_encode x))"
  using assms
proof (induction x arbitrary: pre i v rule: sleb128_encode.induct)
  case (1 x)
  define m where "m = nat (x mod 128)"
  have m: "m < 128" by (simp add: m_def)
  have xm: "x mod 128 = int m" by (simp add: m_def)
  show ?case
  proof (cases "- 64 \<le> x \<and> x < 64")
    case True
    define b :: byte where "b = of_nat m"
    have "(of_int (x mod 128) :: byte) = b"
      by (simp add: b_def xm)
    then have e: "sleb128_encode x = [b]"
      using True by (subst sleb128_encode.simps) simp
    have r: "read_u8 mem (length pre) = Some b"
      using "1.prems"(1) by (simp add: e read_u8_at)
    have i: "i < 10" using "1.prems"(3) by (simp add: e)
    have b1: "b AND 0x80 = 0" and b2: "ucast (b AND 0x7f) = (of_nat m :: 64 word)"
      and b3: "b AND 0x40 = 0 \<longleftrightarrow> m < 64"
      unfolding b_def by (rule last_byte [OF m])+
    have neg: "m < 64 \<longleftrightarrow> 0 \<le> x"
    proof (cases "0 \<le> x")
      case pos: True
      with True have "x mod 128 = x" by simp
      with xm True pos show ?thesis by simp
    next
      case npos: False
      with True have "x mod 128 = x + 128" by presburger
      with xm True npos show ?thesis by simp
    qed
    define v1 where "v1 = v OR push_bit (i * 7) (of_nat m)"
    define fill :: "64 word" where "fill = - (push_bit ((i + 1) * 7) 1)"
    have run: "parse_leb128_loop True mem End i (length pre) v
        = Inr (if 0 \<le> x then v1 else if (i + 1) * 7 < 64 then v1 OR fill else v1, length pre + 1)"
      by (subst parse_leb128_loop.simps)
         (simp add: r i b1 b2 b3 neg Let_def v1_def fill_def)
    have val: "(if 0 \<le> x then v1 else if (i + 1) * 7 < 64 then v1 OR fill else v1)
        = v OR push_bit (i * 7) (of_int x)"
    proof (cases "0 \<le> x")
      case pos: True
      with True have "x mod 128 = x" by simp
      then have "(of_nat m :: 64 word) = of_int x"
        using xm by (metis of_int_of_nat_eq)
      with pos show ?thesis by (simp add: v1_def)
    next
      case npos: False
      with True have "x mod 128 = x + 128" by presburger
      then have "int m - 128 = x" using xm by simp
      then have "(of_int (int m - 128) :: 64 word) = of_int x" by simp
      then have mx: "(of_nat m - 128 :: 64 word) = of_int x" by simp
      have "v1 OR fill = v OR push_bit (i * 7) (of_nat m - 128)"
        unfolding v1_def fill_def or.assoc by (simp only: sign_fill_group [OF m])
      moreover have "v1 OR fill = v1" if "\<not> (i + 1) * 7 < 64"
      proof -
        from that have "64 \<le> (i + 1) * 7" by simp
        then have "fill = 0" unfolding fill_def by (rule sign_fill_zero)
        then show ?thesis by simp
      qed
      ultimately show ?thesis
        using npos by (auto simp: mx)
    qed
    show ?thesis
      unfolding run val by (simp add: e)
  next
    case False
    define b :: byte where "b = of_nat (m + 128)"
    have "(of_int (x mod 128 + 128) :: byte) = b"
      by (simp add: b_def xm)
    then have e: "sleb128_encode x = b # sleb128_encode (x div 128)"
      using False by (subst sleb128_encode.simps) auto
    have r: "read_u8 mem (length pre) = Some b"
      using "1.prems"(1) by (simp add: e read_u8_at)
    have i: "i < 10" using "1.prems"(3) by (simp add: e)
    have b1: "\<not> b AND 0x80 = 0" and b2: "ucast (b AND 0x7f) = (of_nat m :: 64 word)"
      unfolding b_def by (rule cont_byte [OF m])+
    have notend: "\<not> End \<le> length pre + 1"
      using "1.prems"(2) sleb128_encode_nonempty [of "x div 128"] by (simp add: e)
    have IH: "parse_leb128_loop True mem End (i + 1) (length (pre @ [b]))
          (v OR push_bit (i * 7) (of_nat m))
        = Inr ((v OR push_bit (i * 7) (of_nat m)) OR push_bit ((i + 1) * 7) (of_int (x div 128)),
               length (pre @ [b]) + length (sleb128_encode (x div 128)))"
      using "1.prems" by (intro "1.IH" [OF False]) (simp_all add: e)
    have "parse_leb128_loop True mem End i (length pre) v
        = parse_leb128_loop True mem End (i + 1) (length pre + 1)
            (v OR push_bit (i * 7) (of_nat m))"
      using notend by (subst parse_leb128_loop.simps) (simp add: r i b1 b2 Let_def)
    also have "\<dots> = Inr ((v OR push_bit (i * 7) (of_nat m)) OR push_bit ((i + 1) * 7) (of_int (x div 128)),
               length pre + 1 + length (sleb128_encode (x div 128)))"
      using IH by simp
    finally have "parse_leb128_loop True mem End i (length pre) v
        = Inr ((v OR push_bit (i * 7) (of_nat m)) OR push_bit ((i + 1) * 7) (of_int (x div 128)),
               length pre + 1 + length (sleb128_encode (x div 128)))" .
    then have step: "parse_leb128_loop True mem End i (length pre) v
        = Inr (v OR push_bit (i * 7) (of_nat m + 128 * of_int (x div 128)),
               length pre + 1 + length (sleb128_encode (x div 128)))"
      by (simp only: or.assoc split_group_word [OF m])
    have "x = int m + 128 * (x div 128)"
      using xm by (metis mod_mult_div_eq)
    then have "(of_int x :: 64 word) = of_int (int m + 128 * (x div 128))"
      by (rule arg_cong)
    then have "(of_int x :: 64 word) = of_nat m + 128 * of_int (x div 128)"
      by simp
    with step show ?thesis
      by (simp add: e)
  qed
qed

lemma sleb128_roundtrip:
  assumes "mem = pre @ sleb128_encode x @ rest"
    and "length pre + length (sleb128_encode x) \<le> End"
    and "- (2 ^ 63) \<le> x" and "x < 2 ^ 63"
  shows "parse_leb128 True mem (length pre) End
    = Inr (of_int x, length pre + length (sleb128_encode x))"
proof -
  have "- (2 ^ (7 * 9 + 6)) \<le> x"
    using assms(3) by (rule order_trans [rotated]) simp
  moreover have "x < 2 ^ (7 * 9 + 6)"
    using assms(4) by (rule less_le_trans) simp
  ultimately have "length (sleb128_encode x) \<le> 9 + 1"
    by (rule sleb128_encode_length)
  then have "0 + length (sleb128_encode x) \<le> 10" by simp
  from sleb128_roundtrip_loop [OF assms(1) assms(2) this, of 0]
  show ?thesis by (simp add: parse_leb128_def)
qed

lemma word_of_nat_mod:
  "LENGTH('a::len) = n \<Longrightarrow> (of_nat (nat (x mod 2 ^ n)) :: 'a word) = word_of_int x"
proof -
  assume n: "LENGTH('a) = n"
  have "0 \<le> x mod 2 ^ n" by simp
  then have a: "(of_nat (nat (x mod 2 ^ n)) :: 'a word) = word_of_int (x mod 2 ^ n)"
    by (simp only: of_nat_nat)
  have b: "x mod 2 ^ n = take_bit n x" by (simp add: take_bit_eq_mod)
  have c: "(word_of_int (take_bit n x) :: 'a word) = word_of_int x"
    by (rule bit_eqI) (auto simp: bit_word_of_int_iff bit_take_bit_iff n [symmetric])
  show ?thesis unfolding a unfolding b by (rule c)
qed

lemma ucast_word_of_int:
  "0 \<le> x \<Longrightarrow> x < 2 ^ LENGTH('a::len) \<Longrightarrow>
   (ucast (word_of_int x :: 'a word) :: 64 word) = word_of_int x"
  by (simp add: unsigned_of_int take_bit_int_eq_self)

lemma scast_word_of_int:
  "- (2 ^ (LENGTH('a::len) - 1)) \<le> x \<Longrightarrow> x < 2 ^ (LENGTH('a) - 1) \<Longrightarrow>
   (scast (word_of_int x :: 'a word) :: 64 word) = word_of_int x"
  by (simp add: signed_of_int signed_take_bit_int_eq_self)

lemma of_nat_le_nat_le_bytes:
  "LENGTH('a::len) = 8 * n \<Longrightarrow> (of_nat (le_nat (le_bytes n v)) :: 'a word) = of_nat v"
proof -
  assume l: "LENGTH('a) = 8 * n"
  have "(256::nat) ^ n = 2 ^ (8 * n)" by (simp add: power_mult)
  then have "le_nat (le_bytes n v) = take_bit (8 * n) v"
    by (simp add: le_nat_le_bytes take_bit_eq_mod)
  then show ?thesis
    by (simp add: l [symmetric] flip: unsigned_of_nat)
qed

lemma read_field_at:
  assumes "mem = pre @ le_bytes n v @ rest" and "p = length pre"
  shows "load_le n mem p = Some (le_nat (le_bytes n v))"
  using assms by (simp add: load_le_at)

lemma read_u16_field:
  "mem = pre @ le_bytes 2 (nat (x mod 2 ^ 16)) @ rest \<Longrightarrow> p = length pre \<Longrightarrow>
   read_u16 mem p = Some (word_of_int x)"
  using of_nat_le_nat_le_bytes [where ?'a = 16, of 2 "nat (x mod 2 ^ 16)"]
        word_of_nat_mod [where ?'a = 16, of 16 x]
  by (simp add: read_u16_def read_field_at)

lemma read_u32_field:
  "mem = pre @ le_bytes 4 (nat (x mod 2 ^ 32)) @ rest \<Longrightarrow> p = length pre \<Longrightarrow>
   read_u32 mem p = Some (word_of_int x)"
  using of_nat_le_nat_le_bytes [where ?'a = 32, of 4 "nat (x mod 2 ^ 32)"]
        word_of_nat_mod [where ?'a = 32, of 32 x]
  by (simp add: read_u32_def read_field_at)

lemma read_u64_field:
  "mem = pre @ le_bytes 8 (nat (x mod 2 ^ 64)) @ rest \<Longrightarrow> p = length pre \<Longrightarrow>
   read_u64 mem p = Some (word_of_int x)"
  using of_nat_le_nat_le_bytes [where ?'a = 64, of 8 "nat (x mod 2 ^ 64)"]
        word_of_nat_mod [where ?'a = 64, of 64 x]
  by (simp add: read_u64_def read_field_at)

lemma supported_encoding_cases:
  "supported_encoding enc \<longleftrightarrow>
     enc = 0x00 \<or> enc = 0x11 \<or> enc = 0x19 \<or> enc = 0x12 \<or> enc = 0x13 \<or> enc = 0x14 \<or>
     enc = 0x1a \<or> enc = 0x1b \<or> enc = 0x1c"
  by (auto simp: supported_encoding_def DW_EH_PE_absptr_def DW_EH_PE_pcrel_def
      DW_EH_PE_uleb128_def DW_EH_PE_sleb128_def DW_EH_PE_udata2_def DW_EH_PE_udata4_def
      DW_EH_PE_udata8_def DW_EH_PE_sdata2_def DW_EH_PE_sdata4_def DW_EH_PE_sdata8_def)

lemmas DW_EH_PE_defs =
  DW_EH_PE_absptr_def DW_EH_PE_omit_def DW_EH_PE_pcrel_def DW_EH_PE_signed_def
  DW_EH_PE_uleb128_def DW_EH_PE_sleb128_def DW_EH_PE_udata2_def DW_EH_PE_udata4_def
  DW_EH_PE_udata8_def DW_EH_PE_sdata2_def DW_EH_PE_sdata4_def DW_EH_PE_sdata8_def

lemma fde_header_reads:
  assumes mem: "mem = pre @ le_bytes 4 fde_size @ le_bytes 4 cie_id @ F1 @ F2 @ rest"
    and fs: "fde_size < 2 ^ 32" and cs: "cie_id < 2 ^ 32"
  shows "read_u32 mem (length pre) = Some (of_nat fde_size)"
    and "read_u32 mem (length pre + 4) = Some (of_nat cie_id)"
    and "unat (of_nat fde_size :: 32 word) = fde_size"
    and "unat (of_nat cie_id :: 32 word) = cie_id"
    and "mem = (pre @ le_bytes 4 fde_size @ le_bytes 4 cie_id) @ F1 @ (F2 @ rest)"
    and "mem = ((pre @ le_bytes 4 fde_size @ le_bytes 4 cie_id) @ F1) @ F2 @ rest"
    and "length (pre @ le_bytes 4 fde_size @ le_bytes 4 cie_id) = length pre + 8"
    and "length ((pre @ le_bytes 4 fde_size @ le_bytes 4 cie_id) @ F1) = length pre + 8 + length F1"
proof -
  show "read_u32 mem (length pre) = Some (of_nat fde_size)"
    unfolding mem by (rule read_u32_le_bytes)
  show "read_u32 mem (length pre + 4) = Some (of_nat cie_id)"
    using read_u32_le_bytes [of "pre @ le_bytes 4 fde_size" cie_id "F1 @ F2 @ rest"]
    by (simp add: mem)
  show "unat (of_nat fde_size :: 32 word) = fde_size"
    using fs unat_of_nat [where ?'a = 32, of fde_size] by simp
  show "unat (of_nat cie_id :: 32 word) = cie_id"
    using cs unat_of_nat [where ?'a = 32, of cie_id] by simp
qed (simp_all add: mem)

lemma fde_fields_udata2:
  assumes enc: "enc = 0x12"
    and rx: "0 \<le> x" "x < 2 ^ 16" and ry: "0 \<le> y" "y < 2 ^ 16"
    and mem: "mem = pre @ le_bytes 4 fde_size @ le_bytes 4 cie_id @
                le_bytes 2 (nat (x mod 2 ^ 16)) @ le_bytes 2 (nat (y mod 2 ^ 16)) @ rest"
    and fs: "fde_size < 2 ^ 32" and cs: "cie_id < 2 ^ 32" and ci: "cie_id \<le> length pre + 4"
    and fit: "4 + 2 + 2 \<le> fde_size"
    and cie: "parseCIE mem (length pre + 4 - cie_id) Size = Inr enc"
  shows "fde_start_size mem Addr Size None enc0 (length pre)
     = Inr (enc, Addr + of_nat (length pre + 8) + word_of_int x, word_of_int y)"
proof -
  note h = fde_header_reads [OF mem fs cs]
  have f1: "read_u16 mem (length pre + 8) = Some (word_of_int x)"
    by (rule read_u16_field [OF h(5)]) (simp only: h(7))
  have f2: "read_u16 mem (length pre + 8 + 2) = Some (word_of_int y)"
    by (rule read_u16_field [OF h(6)]) (simp only: h(8) length_le_bytes)
  have c1: "(ucast (word_of_int x :: 16 word) :: 64 word) = word_of_int x"
    by (rule ucast_word_of_int) (use rx in simp_all)
  have c2: "(ucast (word_of_int y :: 16 word) :: 64 word) = word_of_int y"
    by (rule ucast_word_of_int) (use ry in simp_all)
  show ?thesis
    unfolding fde_start_size_def
    using ci fit cie f1 f2
    by (simp add: h(1-4) c1 c2 Let_def DW_EH_PE_defs enc)
qed

lemma fde_fields_udata4:
  assumes enc: "enc = 0x13"
    and rx: "0 \<le> x" "x < 2 ^ 32" and ry: "0 \<le> y" "y < 2 ^ 32"
    and mem: "mem = pre @ le_bytes 4 fde_size @ le_bytes 4 cie_id @
                le_bytes 4 (nat (x mod 2 ^ 32)) @ le_bytes 4 (nat (y mod 2 ^ 32)) @ rest"
    and fs: "fde_size < 2 ^ 32" and cs: "cie_id < 2 ^ 32" and ci: "cie_id \<le> length pre + 4"
    and fit: "4 + 4 + 4 \<le> fde_size"
    and cie: "parseCIE mem (length pre + 4 - cie_id) Size = Inr enc"
  shows "fde_start_size mem Addr Size None enc0 (length pre)
     = Inr (enc, Addr + of_nat (length pre + 8) + word_of_int x, word_of_int y)"
proof -
  note h = fde_header_reads [OF mem fs cs]
  have f1: "read_u32 mem (length pre + 8) = Some (word_of_int x)"
    by (rule read_u32_field [OF h(5)]) (simp only: h(7))
  have f2: "read_u32 mem (length pre + 8 + 4) = Some (word_of_int y)"
    by (rule read_u32_field [OF h(6)]) (simp only: h(8) length_le_bytes)
  have c1: "(ucast (word_of_int x :: 32 word) :: 64 word) = word_of_int x"
    by (rule ucast_word_of_int) (use rx in simp_all)
  have c2: "(ucast (word_of_int y :: 32 word) :: 64 word) = word_of_int y"
    by (rule ucast_word_of_int) (use ry in simp_all)
  show ?thesis
    unfolding fde_start_size_def
    using ci fit cie f1 f2
    by (simp add: h(1-4) c1 c2 Let_def DW_EH_PE_defs enc)
qed

lemma fde_fields_udata8:
  assumes enc: "enc = 0x14"
    and rx: "0 \<le> x" "x < 2 ^ 64" and ry: "0 \<le> y" "y < 2 ^ 64"
    and mem: "mem = pre @ le_bytes 4 fde_size @ le_bytes 4 cie_id @
                le_bytes 8 (nat (x mod 2 ^ 64)) @ le_bytes 8 (nat (y mod 2 ^ 64)) @ rest"
    and fs: "fde_size < 2 ^ 32" and cs: "cie_id < 2 ^ 32" and ci: "cie_id \<le> length pre + 4"
    and fit: "4 + 8 + 8 \<le> fde_size"
    and cie: "parseCIE mem (length pre + 4 - cie_id) Size = Inr enc"
  shows "fde_start_size mem Addr Size None enc0 (length pre)
     = Inr (enc, Addr + of_nat (length pre + 8) + word_of_int x, word_of_int y)"
proof -
  note h = fde_header_reads [OF mem fs cs]
  have f1: "read_u64 mem (length pre + 8) = Some (word_of_int x)"
    by (rule read_u64_field [OF h(5)]) (simp only: h(7))
  have f2: "read_u64 mem (length pre + 8 + 8) = Some (word_of_int y)"
    by (rule read_u64_field [OF h(6)]) (simp only: h(8) length_le_bytes)
  show ?thesis
    unfolding fde_start_size_def
    using ci fit cie f1 f2
    by (simp add: h(1-4) Let_def DW_EH_PE_defs enc)
qed

lemma fde_fields_sdata2:
  assumes enc: "enc = 0x1a"
    and rx: "- (2 ^ 15) \<le> x" "x < 2 ^ 15" and ry: "- (2 ^ 15) \<le> y" "y < 2 ^ 15"
    and mem: "mem = pre @ le_bytes 4 fde_size @ le_bytes 4 cie_id @
                le_bytes 2 (nat (x mod 2 ^ 16)) @ le_bytes 2 (nat (y mod 2 ^ 16)) @ rest"
    and fs: "fde_size < 2 ^ 32" and cs: "cie_id < 2 ^ 32" and ci: "cie_id \<le> length pre + 4"
    and fit: "4 + 2 + 2 \<le> fde_size"
    and cie: "parseCIE mem (length pre + 4 - cie_id) Size = Inr enc"
  shows "fde_start_size mem Addr Size None enc0 (length pre)
     = Inr (enc, Addr + of_nat (length pre + 8) + word_of_int x, word_of_int y)"
proof -
  note h = fde_header_reads [OF mem fs cs]
  have f1: "read_u16 mem (length pre + 8) = Some (word_of_int x)"
    by (rule read_u16_field [OF h(5)]) (simp only: h(7))
  have f2: "read_u16 mem (length pre + 8 + 2) = Some (word_of_int y)"
    by (rule read_u16_field [OF h(6)]) (simp only: h(8) length_le_bytes)
  have c1: "(scast (word_of_int x :: 16 word) :: 64 word) = word_of_int x"
    by (rule scast_word_of_int) (use rx in simp_all)
  have c2: "(scast (word_of_int y :: 16 word) :: 64 word) = word_of_int y"
    by (rule scast_word_of_int) (use ry in simp_all)
  show ?thesis
    unfolding fde_start_size_def
    using ci fit cie f1 f2
    by (simp add: h(1-4) c1 c2 Let_def DW_EH_PE_defs enc)
qed

lemma fde_fields_sdata4:
  assumes enc: "enc = 0x1b"
    and rx: "- (2 ^ 31) \<le> x" "x < 2 ^ 31" and ry: "- (2 ^ 31) \<le> y" "y < 2 ^ 31"
    and mem: "mem = pre @ le_bytes 4 fde_size @ le_bytes 4 cie_id @
                le_bytes 4 (nat (x mod 2 ^ 32)) @ le_bytes 4 (nat (y mod 2 ^ 32)) @ rest"
    and fs: "fde_size < 2 ^ 32" and cs: "cie_id < 2 ^ 32" and ci: "cie_id \<le> length pre + 4"
    and fit: "4 + 4 + 4 \<le> fde_size"
    and cie: "parseCIE mem (length pre + 4 - cie_id) Size = Inr enc"
  shows "fde_start_size mem Addr Size None enc0 (length pre)
     = Inr (enc, Addr + of_nat (length pre + 8) + word_of_int x, word_of_int y)"
proof -
  note h = fde_header_reads [OF mem fs cs]
  have f1: "read_u32 mem (length pre + 8) = Some (word_of_int x)"
    by (rule read_u32_field [OF h(5)]) (simp only: h(7))
  have f2: "read_u32 mem (length pre + 8 + 4) = Some (word_of_int y)"
    by (rule read_u32_field [OF h(6)]) (simp only: h(8) length_le_bytes)
  have c1: "(scast (word_of_int x :: 32 word) :: 64 word) = word_of_int x"
    by (rule scast_word_of_int) (use rx in simp_all)
  have c2: "(scast (word_of_int y :: 32 word) :: 64 word) = word_of_int y"
    by (rule scast_word_of_int) (use ry in simp_all)
  show ?thesis
    unfolding fde_start_size_def
    using ci fit cie f1 f2
    by (simp add: h(1-4) c1 c2 Let_def DW_EH_PE_defs enc)
qed

lemma fde_fields_sdata8:
  assumes enc: "enc = 0x1c"
    and rx: "- (2 ^ 63) \<le> x" "x < 2 ^ 63" and ry: "- (2 ^ 63) \<le> y" "y < 2 ^ 63"
    and mem: "mem = pre @ le_bytes 4 fde_size @ le_bytes 4 cie_id @
                le_bytes 8 (nat (x mod 2 ^ 64)) @ le_bytes 8 (nat (y mod 2 ^ 64)) @ rest"
    and fs: "fde_size < 2 ^ 32" and cs: "cie_id < 2 ^ 32" and ci: "cie_id \<le> length pre + 4"
    and fit: "4 + 8 + 8 \<le> fde_size"
    and cie: "parseCIE mem (length pre + 4 - cie_id) Size = Inr enc"
  shows "fde_start_size mem Addr Size None enc0 (length pre)
     = Inr (enc, Addr + of_nat (length pre + 8) + word_of_int x, word_of_int y)"
proof -
  note h = fde_header_reads [OF mem fs cs]
  have f1: "read_u64 mem (length pre + 8) = Some (word_of_int x)"
    by (rule read_u64_field [OF h(5)]) (simp only: h(7))
  have f2: "read_u64 mem (length pre + 8 + 8) = Some (word_of_int y)"
    by (rule read_u64_field [OF h(6)]) (simp only: h(8) length_le_bytes)
  show ?thesis
    unfolding fde_start_size_def
    using ci fit cie f1 f2
    by (simp add: h(1-4) Let_def DW_EH_PE_defs enc)
qed

lemma fde_fields_absptr:
  assumes enc: "enc = 0x00"
    and rx: "0 \<le> x" "x < 2 ^ 64" and ry: "0 \<le> y" "y < 2 ^ 64"
    and mem: "mem = pre @ le_bytes 4 fde_size @ le_bytes 4 cie_id @
                le_bytes 8 (nat (x mod 2 ^ 64)) @ le_bytes 8 (nat (y mod 2 ^ 64)) @ rest"
    and fs: "fde_size < 2 ^ 32" and cs: "cie_id < 2 ^ 32" and ci: "cie_id \<le> length pre + 4"
    and fit: "4 + 8 + 8 \<le> fde_size"
    and cie: "parseCIE mem (length pre + 4 - cie_id) Size = Inr enc"
  shows "fde_start_size mem Addr Size None enc0 (length pre)
     = Inr (enc, word_of_int x, word_of_int y)"
proof -
  note h = fde_header_reads [OF mem fs cs]
  have f1: "read_u64 mem (length pre + 8) = Some (word_of_int x)"
    by (rule read_u64_field [OF h(5)]) (simp only: h(7))
  have f2: "read_u64 mem (length pre + 8 + 8) = Some (word_of_int y)"
    by (rule read_u64_field [OF h(6)]) (simp only: h(8) length_le_bytes)
  show ?thesis
    unfolding fde_start_size_def
    using ci fit cie f1 f2
    by (simp add: h(1-4) Let_def DW_EH_PE_defs enc)
qed

lemma fde_fields_uleb128:
  assumes enc: "enc = 0x11"
    and rx: "0 \<le> x" "x < 2 ^ 64" and ry: "0 \<le> y" "y < 2 ^ 64"
    and mem: "mem = pre @ le_bytes 4 fde_size @ le_bytes 4 cie_id @
                uleb128_encode (nat x) @ uleb128_encode (nat y) @ rest"
    and fs: "fde_size < 2 ^ 32" and cs: "cie_id < 2 ^ 32" and ci: "cie_id \<le> length pre + 4"
    and fit: "4 + length (uleb128_encode (nat x)) + length (uleb128_encode (nat y)) \<le> fde_size"
    and cie: "parseCIE mem (length pre + 4 - cie_id) Size = Inr enc"
  shows "fde_start_size mem Addr Size None enc0 (length pre)
     = Inr (enc, Addr + of_nat (length pre + 8) + word_of_int x, word_of_int y)"
proof -
  note h = fde_header_reads [OF mem fs cs]
  have nx: "nat x < 2 ^ 64" and ny: "nat y < 2 ^ 64"
    using rx ry by (simp_all add: nat_less_iff)
  have wx: "(of_nat (nat x) :: 64 word) = word_of_int x" and wy: "(of_nat (nat y) :: 64 word) = word_of_int y"
    using rx ry by simp_all
  have p1: "parse_leb128 False mem (length pre + 8) (length pre + 4 + fde_size)
      = Inr (word_of_int x, length pre + 8 + length (uleb128_encode (nat x)))"
    using uleb128_roundtrip [OF h(5) _ nx, of "length pre + 4 + fde_size"] fit
    by (simp add: h(7) wx)
  have p2: "parse_leb128 False mem (length pre + 8 + length (uleb128_encode (nat x))) (length pre + 4 + fde_size)
      = Inr (word_of_int y, length pre + 8 + length (uleb128_encode (nat x)) + length (uleb128_encode (nat y)))"
    using uleb128_roundtrip [OF h(6) _ ny, of "length pre + 4 + fde_size"] fit
    by (simp add: h(8) wy add.assoc)
  show ?thesis
    unfolding fde_start_size_def
    using ci cie p1 p2
    by (simp add: h(1-4) Let_def DW_EH_PE_defs enc)
qed

lemma fde_fields_sleb128:
  assumes enc: "enc = 0x19"
    and rx: "- (2 ^ 63) \<le> x" "x < 2 ^ 63" and ry: "- (2 ^ 63) \<le> y" "y < 2 ^ 63"
    and mem: "mem = pre @ le_bytes 4 fde_size @ le_bytes 4 cie_id @
                sleb128_encode x @ sleb128_encode y @ rest"
    and fs: "fde_size < 2 ^ 32" and cs: "cie_id < 2 ^ 32" and ci: "cie_id \<le> length pre + 4"
    and fit: "4 + length (sleb128_encode x) + length (sleb128_encode y) \<le> fde_size"
    and cie: "parseCIE mem (length pre + 4 - cie_id) Size = Inr enc"
  shows "fde_start_size mem Addr Size None enc0 (length pre)
     = Inr (enc, Addr + of_nat (length pre + 8) + word_of_int x, word_of_int y)"
proof -
  note h = fde_header_reads [OF mem fs cs]
  have p1: "parse_leb128 True mem (length pre + 8) (length pre + 4 + fde_size)
      = Inr (word_of_int x, length pre + 8 + length (sleb128_encode x))"
    using sleb128_roundtrip [OF h(5) _ rx, of "length pre + 4 + fde_size"] fit
    by (simp add: h(7))
  have p2: "parse_leb128 True mem (length pre + 8 + length (sleb128_encode x)) (length pre + 4 + fde_size)
      = Inr (word_of_int y, length pre + 8 + length (sleb128_encode x) + length (sleb128_encode y))"
    using sleb128_roundtrip [OF h(6) _ ry, of "length pre + 4 + fde_size"] fit
    by (simp add: h(8) add.assoc)
  show ?thesis
    unfolding fde_start_size_def
    using ci cie p1 p2
    by (simp add: h(1-4) Let_def DW_EH_PE_defs enc)
qed





section \<open>Theorems about demangling\<close>

lemma underscore_not_digit: "\<not> is_digit CHR ''_''"
  by (simp add: is_digit_def)

lemma scan_digits_back_found:
  "\<forall>c \<in> set ds. is_digit c \<Longrightarrow>
   scan_digits_back (xs @ CHR ''_'' # ds @ zs) (length xs + 1 + length ds) = Some (length xs)"
proof (induction ds arbitrary: zs rule: rev_induct)
  case Nil
  then show ?case by simp
next
  case (snoc d ds)
  have nth: "(xs @ CHR ''_'' # (ds @ [d]) @ zs) ! (length xs + 1 + length ds) = d"
    by (simp add: nth_append)
  have d: "is_digit d" "d \<noteq> CHR ''_''"
    using snoc.prems underscore_not_digit by auto
  have "scan_digits_back (xs @ CHR ''_'' # (ds @ [d]) @ zs) (Suc (length xs + 1 + length ds))
      = scan_digits_back (xs @ CHR ''_'' # (ds @ [d]) @ zs) (length xs + 1 + length ds)"
    using d by (simp only: scan_digits_back.simps nth) simp
  also have "\<dots> = Some (length xs)"
    using snoc.IH [of "d # zs"] snoc.prems by simp
  finally show ?case by simp
qed

lemma scan_digits_back_Some:
  "scan_digits_back s n = Some e \<Longrightarrow>
   e < n \<and> s ! e = CHR ''_'' \<and> (\<forall>j. e < j \<and> j < n \<longrightarrow> is_digit (s ! j))"
proof (induction n)
  case 0
  then show ?case by simp
next
  case (Suc n)
  show ?case
  proof (cases "s ! n = CHR ''_''")
    case True
    with Suc.prems show ?thesis by auto
  next
    case False
    with Suc.prems have dg: "is_digit (s ! n)" and rec: "scan_digits_back s n = Some e"
      by (auto split: if_splits)
    from Suc.IH [OF rec] dg show ?thesis
      by (auto simp: less_Suc_eq)
  qed
qed

lemma jl_prefixes_length: "p \<in> set jl_prefixes \<Longrightarrow> length p = 6"
  by (auto simp: jl_prefixes_def)

lemma jl_demangle_shape:
  assumes "p \<in> set jl_prefixes" and "body \<noteq> []" and "\<forall>c \<in> set ds. is_digit c"
    and "c_str name = p @ body @ ''_'' @ ds"
  shows "jl_demangle name = (body, True)"
proof -
  have lp: "length p = 6" using assms(1) by (rule jl_prefixes_length)
  have s: "c_str name = (p @ body) @ CHR ''_'' # ds @ []"
    using assms(4) by simp
  have len: "length (c_str name) = length (p @ body) + 1 + length ds"
    by (simp add: s)
  have scan: "scan_digits_back (c_str name) (length (c_str name)) = Some (length (p @ body))"
    unfolding len unfolding s by (rule scan_digits_back_found [OF assms(3)])
  have t: "take 6 (c_str name) = p"
    using lp by (simp add: assms(4))
  have b: "take (length body) (drop 6 (c_str name)) = body"
    using lp by (simp add: assms(4))
  have long: "\<not> length (c_str name) \<le> 6"
    using assms(2) lp by (simp add: len)
  have e: "\<not> length (p @ body) \<le> 6" "length (p @ body) - 6 = length body"
    using assms(2) lp by simp_all
  show ?thesis
    unfolding jl_demangle_def
    using assms(1) by (simp only: Let_def scan t b long e if_False option.case if_True not_True_eq_False not_not)
qed

lemma jl_demangle_managed:
  assumes "snd (jl_demangle name)"
  shows "\<exists>p body ds. p \<in> set jl_prefixes \<and> body \<noteq> [] \<and> (\<forall>c \<in> set ds. is_digit c) \<and>
           c_str name = p @ body @ ''_'' @ ds"
proof -
  let ?s = "c_str name"
  from assms obtain e where long: "6 < length ?s" and pre: "take 6 ?s \<in> set jl_prefixes"
    and scan: "scan_digits_back ?s (length ?s) = Some e" and e: "6 < e"
    unfolding jl_demangle_def
    by (auto simp: Let_def split: if_splits option.splits)
  from scan_digits_back_Some [OF scan]
  have el: "e < length ?s" and us: "?s ! e = CHR ''_''"
    and dg: "\<forall>j. e < j \<and> j < length ?s \<longrightarrow> is_digit (?s ! j)"
    by auto
  let ?body = "take (e - 6) (drop 6 ?s)" and ?ds = "drop (Suc e) ?s"
  have "?s = take e ?s @ ?s ! e # drop (Suc e) ?s"
    using el by (rule id_take_nth_drop)
  moreover have "take e ?s = take 6 ?s @ ?body"
    using e by (metis le_add_diff_inverse less_imp_le_nat take_add)
  ultimately have dec: "?s = take 6 ?s @ ?body @ ''_'' @ ?ds"
    using us by simp
  have "?body \<noteq> []"
    using e el by simp
  moreover have "\<forall>c \<in> set ?ds. is_digit c"
  proof
    fix c assume "c \<in> set ?ds"
    then obtain k where k: "k < length ?ds" and c: "c = ?ds ! k"
      by (auto simp: in_set_conv_nth)
    then have "c = ?s ! (Suc e + k)" and "Suc e + k < length ?s"
      by simp_all
    with dg show "is_digit c" by simp
  qed
  ultimately show ?thesis
    using pre dec by blast
qed

lemma jl_demangle_unchanged:
  "\<not> snd (jl_demangle name) \<Longrightarrow> jl_demangle name = (c_str name, False)"
  unfolding jl_demangle_def
  by (auto simp: Let_def split: if_splits option.splits)

text \<open>
  Claim C3, as the code has it. With \<open>s\<close> the characters of the name: if \<open>s\<close> is one of
  the five prefixes, then a non-empty body, then an underscore, then nothing but
  decimal digits up to the end (there may be none), the result is the body, marked
  managed; every other name comes back unchanged and marked not managed.
\<close>

theorem jl_demangle_strips_prefix_and_suffix:
  "(\<forall>p body ds. p \<in> set jl_prefixes \<and> body \<noteq> [] \<and> (\<forall>c \<in> set ds. is_digit c) \<and>
       c_str name = p @ body @ ''_'' @ ds \<longrightarrow> jl_demangle name = (body, True)) \<and>
   ((\<nexists>p body ds. p \<in> set jl_prefixes \<and> body \<noteq> [] \<and> (\<forall>c \<in> set ds. is_digit c) \<and>
       c_str name = p @ body @ ''_'' @ ds) \<longrightarrow> jl_demangle name = (c_str name, False))"
  using jl_demangle_shape jl_demangle_managed jl_demangle_unchanged
  by (intro conjI allI impI) (blast, metis)

theorem jl_demangle_strips_prefix_and_suffix_witness:
  "jl_demangle ''julia_foo_42'' = (''foo'', True) \<and>
   jl_demangle ''random_name'' = (''random_name'', False)"
proof -
  have a: "''julia_'' \<in> set jl_prefixes \<and> ''foo'' \<noteq> [] \<and> (\<forall>c \<in> set ''42''. is_digit c) \<and>
      c_str ''julia_foo_42'' = ''julia_'' @ ''foo'' @ ''_'' @ ''42''"
    by (simp add: jl_prefixes_def is_digit_def c_str_def)
  have b: "\<nexists>p body ds. p \<in> set jl_prefixes \<and> body \<noteq> [] \<and> (\<forall>c \<in> set ds. is_digit c) \<and>
      c_str ''random_name'' = p @ body @ ''_'' @ ds"
    by (auto simp: jl_prefixes_def c_str_def)
  have c: "c_str ''random_name'' = ''random_name''"
    by (simp add: c_str_def)
  from jl_demangle_strips_prefix_and_suffix [of "''julia_foo_42''"] a
  have "jl_demangle ''julia_foo_42'' = (''foo'', True)" by blast
  moreover from jl_demangle_strips_prefix_and_suffix [of "''random_name''"] b c
  have "jl_demangle ''random_name'' = (''random_name'', False)" by simp
  ultimately show ?thesis by simp
qed

text \<open>
  The claim as it is worded asks for a run of digits behind the underscore. The code
  does not: \<^verbatim>\<open>julia_foo_\<close> has no digit at its end and still loses prefix and
  underscore and is marked managed.
\<close>

theorem jl_demangle_empty_digits_counterexample:
  "jl_demangle ''julia_foo_'' = (''foo'', True) \<and>
   \<not> (\<exists>p body ds. p \<in> set jl_prefixes \<and> body \<noteq> [] \<and> ds \<noteq> [] \<and> (\<forall>c \<in> set ds. is_digit c) \<and>
        ''julia_foo_'' = p @ body @ ''_'' @ ds)"
proof -
  have "jl_demangle ''julia_foo_'' = (''foo'', True)"
    by (simp add: jl_demangle_def c_str_def jl_prefixes_def Let_def eval_nat_numeral is_digit_def)
  moreover have "\<not> (\<exists>p body ds. p \<in> set jl_prefixes \<and> body \<noteq> [] \<and> ds \<noteq> [] \<and>
        (\<forall>c \<in> set ds. is_digit c) \<and> ''julia_foo_'' = p @ body @ ''_'' @ ds)"
  proof
    assume "\<exists>p body ds. p \<in> set jl_prefixes \<and> body \<noteq> [] \<and> ds \<noteq> [] \<and>
        (\<forall>c \<in> set ds. is_digit c) \<and> ''julia_foo_'' = p @ body @ ''_'' @ ds"
    then obtain p body ds where ds: "ds \<noteq> []" "\<forall>c \<in> set ds. is_digit c"
      and eq: "''julia_foo_'' = p @ body @ ''_'' @ ds"
      by blast
    from eq have "last ''julia_foo_'' = last (p @ body @ ''_'' @ ds)" by simp
    with ds(1) have "last ds = CHR ''_''" by simp
    moreover from ds have "is_digit (last ds)" by simp
    ultimately show False by (simp add: underscore_not_digit)
  qed
  ultimately show ?thesis by simp
qed

section \<open>Theorems about the debug-link files\<close>

lemma funpow8: "(f ^^ 8) x = f (f (f (f (f (f (f (f x)))))))"
  by (simp add: eval_nat_numeral)

lemma upt_256:
  "[0..<256] =
      [
       0, 1, 2, 3, 4, 5, 6, 7, 8, 9, 10, 11, 12, 13, 14, 15, 16, 17, 18, 19, 20, 21, 22, 23, 24,
       25, 26, 27, 28, 29, 30, 31, 32, 33, 34, 35, 36, 37, 38, 39, 40, 41, 42, 43, 44, 45, 46,
       47, 48, 49, 50, 51, 52, 53, 54, 55, 56, 57, 58, 59, 60, 61, 62, 63, 64, 65, 66, 67, 68,
       69, 70, 71, 72, 73, 74, 75, 76, 77, 78, 79, 80, 81, 82, 83, 84, 85, 86, 87, 88, 89, 90,
       91, 92, 93, 94, 95, 96, 97, 98, 99, 100, 101, 102, 103, 104, 105, 106, 107, 108, 109, 110,
       111, 112, 113, 114, 115, 116, 117, 118, 119, 120, 121, 122, 123, 124, 125, 126, 127, 128,
       129, 130, 131, 132, 133, 134, 135, 136, 137, 138, 139, 140, 141, 142, 143, 144, 145, 146,
       147, 148, 149, 150, 151, 152, 153, 154, 155, 156, 157, 158, 159, 160, 161, 162, 163, 164,
       165, 166, 167, 168, 169, 170, 171, 172, 173, 174, 175, 176, 177, 178, 179, 180, 181, 182,
       183, 184, 185, 186, 187, 188, 189, 190, 191, 192, 193, 194, 195, 196, 197, 198, 199, 200,
       201, 202, 203, 204, 205, 206, 207, 208, 209, 210, 211, 212, 213, 214, 215, 216, 217, 218,
       219, 220, 221, 222, 223, 224, 225, 226, 227, 228, 229, 230, 231, 232, 233, 234, 235, 236,
       237, 238, 239, 240, 241, 242, 243, 244, 245, 246, 247, 248, 249, 250, 251, 252, 253, 254,
       255]"
  by code_simp

lemma g_crc32_tab_standard: "g_crc32_tab = map crc32_table_entry [0..<256]"
  unfolding g_crc32_tab_def upt_256
  by (simp add: crc32_table_entry_def funpow8 crc32_bit_step_def)

lemma g_crc32_tab_nth: "i < 256 \<Longrightarrow> g_crc32_tab ! i = crc32_table_entry i"
  by (simp add: g_crc32_tab_standard)

lemma crc32_bit_step_xor:
  "crc32_bit_step (u XOR v) = crc32_bit_step u XOR crc32_bit_step v"
  by (simp add: crc32_bit_step_def bit_xor_iff drop_bit_eq_div [symmetric] xor.assoc xor.left_commute)
     (auto simp: bit_eq_iff bit_xor_iff bit_drop_bit_eq)

lemma crc32_steps_xor:
  "(crc32_bit_step ^^ k) (u XOR v) = (crc32_bit_step ^^ k) u XOR (crc32_bit_step ^^ k) v"
  by (induction k) (simp_all add: crc32_bit_step_xor)

lemma crc32_steps_shift:
  "take_bit k y = 0 \<Longrightarrow> (crc32_bit_step ^^ k) y = drop_bit k y"
proof (induction k arbitrary: y)
  case 0
  show ?case by simp
next
  case (Suc k)
  have "bit (take_bit (Suc k) y) 0 = bit y 0"
    by (simp add: bit_take_bit_iff)
  then have b0: "\<not> bit y 0"
    using Suc.prems by simp
  then have s: "crc32_bit_step y = drop_bit 1 y"
    by (simp add: crc32_bit_step_def)
  have "take_bit k (drop_bit 1 y) = drop_bit 1 (take_bit (Suc k) y)"
    by (simp add: take_bit_drop_bit)
  then have "take_bit k (drop_bit 1 y) = 0"
    using Suc.prems by simp
  from Suc.IH [OF this] show ?case
    by (simp add: funpow_swap1 s)
qed

lemma crc32_table_step:
  "g_crc32_tab ! unat ((crc XOR ucast (b :: byte)) AND 0xFF) XOR drop_bit 8 crc
     = (crc32_bit_step ^^ 8) (crc XOR ucast b)"
proof -
  define x where "x = crc XOR ucast b"
  define lo where "lo = x AND 0xFF"
  define hi where "hi = x AND NOT 0xFF"
  have m: "(0xFF :: 32 word) = mask 8" by (simp add: mask_eq_exp_minus_1)
  have lo8: "lo = take_bit 8 x" by (simp add: lo_def m take_bit_eq_mask)
  have x: "x = lo XOR hi"
    unfolding lo_def hi_def m
    by (rule bit_eqI) (auto simp: bit_xor_iff bit_and_iff bit_not_iff bit_mask_iff)
  have "take_bit 8 (unat x) < 2 ^ 8"
    by (rule take_bit_nat_less_exp)
  then have i: "unat lo < 256"
    unfolding lo8 by (simp add: unsigned_take_bit_eq)
  have t: "g_crc32_tab ! unat lo = (crc32_bit_step ^^ 8) lo"
    by (simp add: g_crc32_tab_nth [OF i] crc32_table_entry_def)
  have "take_bit 8 hi = 0"
    unfolding hi_def m by (rule bit_eqI) (auto simp: bit_take_bit_iff bit_and_iff bit_not_iff bit_mask_iff)
  then have h: "(crc32_bit_step ^^ 8) hi = drop_bit 8 hi"
    by (rule crc32_steps_shift)
  have "drop_bit 8 hi = drop_bit 8 crc"
    unfolding hi_def x_def m
    by (rule bit_eqI)
       (auto simp: bit_drop_bit_eq bit_and_iff bit_not_iff bit_mask_iff bit_xor_iff bit_ucast_iff
             dest: bit_imp_le_length)
  with h have h': "(crc32_bit_step ^^ 8) hi = drop_bit 8 crc" by simp
  have "(crc32_bit_step ^^ 8) x = (crc32_bit_step ^^ 8) lo XOR (crc32_bit_step ^^ 8) hi"
    by (subst x) (rule crc32_steps_xor)
  then show ?thesis
    using t h' by (simp add: x_def [symmetric] lo_def [symmetric])
qed

lemma crc32_loop_fold:
  "crc32_loop crc buf = fold (\<lambda>b c. (crc32_bit_step ^^ 8) (c XOR ucast b)) buf crc"
  by (induction buf arbitrary: crc) (simp_all add: crc32_table_step)

lemma calc_gnu_debuglink_crc32_standard:
  "calc_gnu_debuglink_crc32 buf = crc32_reflected buf"
proof -
  have "w XOR NOT 0 = NOT w" for w :: "32 word"
    by (rule bit_eqI) (auto simp: bit_xor_iff bit_not_iff)
  then show ?thesis
    by (simp add: calc_gnu_debuglink_crc32_def crc32_reflected_def crc32_loop_fold)
qed

lemma crc32_check_value:
  "calc_gnu_debuglink_crc32 [0x31, 0x32, 0x33, 0x34, 0x35, 0x36, 0x37, 0x38, 0x39] = 0xCBF43926"
  by code_simp

lemma openDebugInfo_accepted:
  "openDebugInfo getFile createObject path info = Inr found \<longleftrightarrow>
     accepted_candidate getFile createObject info path = Some found"
  by (auto simp: openDebugInfo_def accepted_candidate_def calc_gnu_debuglink_crc32_standard
           split: option.splits)

lemma openDebugInfo_rejected:
  "isl (openDebugInfo getFile createObject path info) \<longleftrightarrow>
     accepted_candidate getFile createObject info path = None"
  by (auto simp: openDebugInfo_def accepted_candidate_def calc_gnu_debuglink_crc32_standard
           split: option.splits)

lemma find_debuglink_file_first_accepted:
  "find_debuglink_file getFile createObject fname info
     = first_accepted (accepted_candidate getFile createObject info) (candidate_paths fname info)"
proof -
  let ?acc = "accepted_candidate getFile createObject info"
  let ?open = "\<lambda>p. openDebugInfo getFile createObject p info"
  have l: "?acc p = None \<Longrightarrow> isl (?open p)" for p
    by (simp add: openDebugInfo_rejected)
  have r: "?acc p = Some found \<Longrightarrow> ?open p = Inr found" for p found
    by (simp add: openDebugInfo_accepted)
  show ?thesis
    unfolding find_debuglink_file_def candidate_paths_def Let_def
    by (auto simp: l r split: option.splits sum.splits dest: l)
qed

text \<open>
  Claim C5, as the code has it. The companion file of a debug-link is the first
  accepted one among the candidates, in this order: the file of that name in the
  directory of the library (left out when the debug-link names the library file
  itself), the one in the \<^verbatim>\<open>.debug/\<close> subdirectory of that directory, the one under
  \<^verbatim>\<open>/usr/lib/debug/\<close> followed by that directory. A candidate is accepted if and only
  if it can be read, the CRC-32 of its whole contents (reflected polynomial
  \<open>0xEDB88320\<close>, the one of the table) equals the checksum of the debug-link, and its
  contents parse as an object file.
\<close>

theorem debuglink_first_accepted_candidate:
  "find_debuglink_file getFile createObject fname info
     = first_accepted (accepted_candidate getFile createObject info) (candidate_paths fname info)
   \<and> (openDebugInfo getFile createObject path info = Inr (obj, contents) \<longleftrightarrow>
        getFile path = Some contents \<and> crc32_reflected contents = dl_crc32 info \<and>
        createObject contents = Some obj)"
proof
  show "find_debuglink_file getFile createObject fname info
     = first_accepted (accepted_candidate getFile createObject info) (candidate_paths fname info)"
    by (rule find_debuglink_file_first_accepted)
  show "openDebugInfo getFile createObject path info = Inr (obj, contents) \<longleftrightarrow>
        getFile path = Some contents \<and> crc32_reflected contents = dl_crc32 info \<and>
        createObject contents = Some obj"
    by (auto simp: openDebugInfo_def calc_gnu_debuglink_crc32_standard split: option.splits)
qed

theorem debuglink_first_accepted_candidate_witness:
  "find_debuglink_file
     (\<lambda>p. if p = ''/opt/lib/libfoo.so.debug'' then Some [0x00]
          else if p = ''/opt/lib/.debug/libfoo.so.debug''
               then Some [0x31, 0x32, 0x33, 0x34, 0x35, 0x36, 0x37, 0x38, 0x39]
          else None)
     (\<lambda>contents. if contents = [0x31, 0x32, 0x33, 0x34, 0x35, 0x36, 0x37, 0x38, 0x39]
                 then Some True else None)
     ''/opt/lib/libfoo.so''
     \<lparr>dl_filename = ''libfoo.so.debug'', dl_crc32 = 0xCBF43926\<rparr>
   = Some (True, [0x31, 0x32, 0x33, 0x34, 0x35, 0x36, 0x37, 0x38, 0x39])"
proof -
  let ?good = "[0x31, 0x32, 0x33, 0x34, 0x35, 0x36, 0x37, 0x38, 0x39] :: byte list"
  have good: "crc32_reflected ?good = 0xCBF43926"
    using crc32_check_value by (simp only: calc_gnu_debuglink_crc32_standard)
  have "calc_gnu_debuglink_crc32 [0x00] = 0xD202EF8D"
    by code_simp
  then have bad: "crc32_reflected [0x00] \<noteq> 0xCBF43926"
    by (simp add: calc_gnu_debuglink_crc32_standard)
  have paths: "candidate_paths ''/opt/lib/libfoo.so'' \<lparr>dl_filename = ''libfoo.so.debug'', dl_crc32 = 0xCBF43926\<rparr>
      = [''/opt/lib/libfoo.so.debug'', ''/opt/lib/.debug/libfoo.so.debug'',
         ''/usr/lib/debug//opt/lib/libfoo.so.debug'']"
    by (simp add: candidate_paths_def sep_plus_1_def)
  show ?thesis
    by (simp only: debuglink_first_accepted_candidate paths)
       (simp add: accepted_candidate_def good bad)
qed

text \<open>
  The claim as it is worded accepts a candidate as soon as its checksum matches. The
  code does not: a file whose checksum matches and whose contents are not an object
  file is rejected like a mismatching one.
\<close>

theorem debuglink_crc_match_not_accepted_counterexample:
  "calc_gnu_debuglink_crc32 [0x31, 0x32, 0x33, 0x34, 0x35, 0x36, 0x37, 0x38, 0x39]
     = dl_crc32 \<lparr>dl_filename = ''libfoo.so.debug'', dl_crc32 = 0xCBF43926\<rparr> \<and>
   openDebugInfo
     (\<lambda>p. if p = ''/opt/lib/libfoo.so.debug''
          then Some [0x31, 0x32, 0x33, 0x34, 0x35, 0x36, 0x37, 0x38, 0x39] else None)
     (\<lambda>contents. None :: bool option)
     ''/opt/lib/libfoo.so.debug''
     \<lparr>dl_filename = ''libfoo.so.debug'', dl_crc32 = 0xCBF43926\<rparr>
   = Inl not_an_object"
  using crc32_check_value by (simp add: openDebugInfo_def)

lemma rev_map_keys_assign:
  "fst ` set (rev_map_assign m k v) = insert k (fst ` set m)"
  by (induction m k v rule: rev_map_assign.induct) auto

lemma rev_map_keys_insert:
  "fst ` set (rev_map_insert m k v) = insert k (fst ` set m)"
  by (induction m k v rule: rev_map_insert.induct) auto

lemma rev_map_ordered_assign:
  "rev_map_ordered m \<Longrightarrow> rev_map_ordered (rev_map_assign m k v)"
proof (induction m k v rule: rev_map_assign.induct)
  case (1 k v)
  then show ?case by (simp add: rev_map_ordered_def)
next
  case (2 k' v' m k v)
  have keys: "fst ` set (rev_map_assign m k v) = insert k (fst ` set m)"
    by (rule rev_map_keys_assign)
  from 2 show ?case
    using keys by (auto simp add: rev_map_ordered_def not_less order.strict_iff_order)
qed

lemma rev_map_ordered_insert:
  "rev_map_ordered m \<Longrightarrow> rev_map_ordered (rev_map_insert m k v)"
proof (induction m k v rule: rev_map_insert.induct)
  case (1 k v)
  then show ?case by (simp add: rev_map_ordered_def)
next
  case (2 k' v' m k v)
  have keys: "fst ` set (rev_map_insert m k v) = insert k (fst ` set m)"
    by (rule rev_map_keys_insert)
  from 2 show ?case
    using keys by (auto simp add: rev_map_ordered_def not_less order.strict_iff_order)
qed

lemma map_of_rev_map_assign:
  "map_of (rev_map_assign m k v) = (map_of m)(k \<mapsto> v)"
  by (induction m k v rule: rev_map_assign.induct) (auto simp add: fun_eq_iff)

lemma rev_map_ordered_map_of:
  "rev_map_ordered m \<Longrightarrow> (k, v) \<in> set m \<longleftrightarrow> map_of m k = Some v"
proof -
  assume "rev_map_ordered m"
  then have "distinct (map fst m)"
    unfolding rev_map_ordered_def by (induction m) auto
  then show ?thesis by auto
qed

lemma lower_bound_Some_D:
  "lower_bound m p = Some (k, v) \<Longrightarrow> (k, v) \<in> set m \<and> k \<le> p"
  by (induction m p rule: lower_bound.induct) (auto split: if_splits)

lemma lower_bound_None_iff:
  "lower_bound m p = None \<longleftrightarrow> (\<forall>k \<in> fst ` set m. \<not> k \<le> p)"
  by (induction m p rule: lower_bound.induct) auto

lemma lower_bound_greatest:
  assumes "rev_map_ordered m" and "(k, v) \<in> set m" and "k \<le> p"
    and "\<forall>k' \<in> fst ` set m. \<not> (k < k' \<and> k' \<le> p)"
  shows "lower_bound m p = Some (k, v)"
  using assms
proof (induction m p rule: lower_bound.induct)
  case (1 p)
  then show ?case by simp
next
  case (2 k1 v1 m p)
  show ?case
  proof (cases "k1 \<le> p")
    case True
    have "(k, v) = (k1, v1)"
    proof (rule ccontr)
      assume ne: "(k, v) \<noteq> (k1, v1)"
      with 2(3) have "(k, v) \<in> set m" by auto
      then have "k \<in> fst ` set m" by force
      with 2(2) have "k < k1" by (auto simp add: rev_map_ordered_def)
      with True 2(5) show False by simp
    qed
    with True show ?thesis by simp
  next
    case False
    with 2(3,4) have mem: "(k, v) \<in> set m" by auto
    from 2(2) have ord: "rev_map_ordered m" by (simp add: rev_map_ordered_def)
    from 2(5) have "\<forall>k' \<in> fst ` set m. \<not> (k < k' \<and> k' \<le> p)" by simp
    from 2(1) [OF False ord mem 2(4) this] False show ?thesis by simp
  qed
qed

lemma lower_bound_is_greatest:
  assumes "rev_map_ordered m" and "lower_bound m p = Some (k, v)" and "k' \<in> fst ` set m"
    and "k' \<le> p"
  shows "k' \<le> k"
  using assms
proof (induction m p rule: lower_bound.induct)
  case (1 p)
  then show ?case by simp
next
  case (2 k1 v1 m p)
  show ?case
  proof (cases "k1 \<le> p")
    case True
    with 2(3) have "k = k1" by simp
    with 2(2,4) show ?thesis by (auto simp add: rev_map_ordered_def)
  next
    case False
    with 2(4,5) have mem: "k' \<in> fst ` set m" by auto
    from 2(2) have ord: "rev_map_ordered m" by (simp add: rev_map_ordered_def)
    from False 2(3) have lb: "lower_bound m p = Some (k, v)" by simp
    from 2(1) [OF False ord lb mem 2(5)] show ?thesis .
  qed
qed

text \<open>
  C9: registering an object image that has no function-typed symbol returns at once
  and leaves the whole state as it was: the pending map, the map from addresses to
  code instances, the section records, the store of images (no image is made), the
  byte counter and the registrations with the unwinders.
\<close>

theorem registerJITObject_without_functions_changes_nothing:
  assumes "\<forall>symbol \<in> set (obj_symbols Object). sym_type symbol \<noteq> ST_Function"
  shows "registerJITObject env st Object getLoadAddress = Inr st"
  using assms by (simp add: registerJITObject_def list_ex_iff)

theorem registerJITObject_without_functions_changes_nothing_witness:
  "map sym_type (obj_symbols data_only_object) = [ST_Data] \<and>
   registerJITObject plain_environment
     (add_code_in_flight plain_environment empty_registry ''X'' 7)
     data_only_object (\<lambda>secName. 0x7000) =
   Inr (add_code_in_flight plain_environment empty_registry ''X'' 7)"
  using registerJITObject_without_functions_changes_nothing
    [of data_only_object plain_environment
        "add_code_in_flight plain_environment empty_registry ''X'' 7" "\<lambda>secName. 0x7000"]
  by (simp add: data_only_object_def)
lemma register_symbol_skip:
  "\<not> registrable s \<Longrightarrow> register_symbol env g oc (s, z) acc = Inr acc"
  by (cases acc) (auto simp add: register_symbol_def registrable_def split: option.splits)

lemma register_symbol_take:
  assumes "registrable s" and "lock_profile_wr env"
  shows "\<exists>st'. register_symbol env g oc (s, z) (st, b) = Inr (st', True) \<and>
           codeinst_in_flight st' = (codeinst_in_flight st)(sym_name s := None) \<and>
           cimap st' = (case codeinst_in_flight st (sym_name s) of
                          None \<Rightarrow> cimap st
                        | Some c \<Rightarrow> rev_map_assign (cimap st) (resolved_address g s) (z, c)) \<and>
           objectmap st' =
             rev_map_insert (objectmap st) (g (sec_name (the (sym_section s))))
               \<lparr>si_object = oc, si_SectionSize = sec_size (the (sym_section s)),
                si_slide = sec_address (the (sym_section s)) - g (sec_name (the (sym_section s))),
                si_SectionIndex = sec_index (the (sym_section s))\<rparr> \<and>
           images st' = images st \<and> next_image st' = next_image st"
  using assms
  by (auto simp add: register_symbol_def registrable_def resolved_address_def
        jl_profile_atomic_def Let_def split: option.splits)

lemma register_symbols_returns:
  assumes "lock_profile_wr env"
  shows "\<exists>st' b'. register_symbols env g oc syms (st, b) = Inr (st', b')"
proof (induction syms arbitrary: st b)
  case Nil
  then show ?case by simp
next
  case (Cons sz syms)
  obtain s z where sz: "sz = (s, z)" by (cases sz)
  show ?case
  proof (cases "registrable s")
    case True
    from register_symbol_take [OF True assms, of g oc z st b]
    obtain st1 where "register_symbol env g oc (s, z) (st, b) = Inr (st1, True)" by blast
    with Cons [of st1 True] sz show ?thesis by simp
  next
    case False
    from register_symbol_skip [OF False, of env g oc z "(st, b)"] Cons [of st b] sz
    show ?thesis by simp
  qed
qed

lemma register_symbols_cimap_entry:
  assumes lock: "lock_profile_wr env"
  shows "register_symbols env g oc syms (st, b) = Inr (st', b') \<Longrightarrow>
    \<forall>e \<in> set syms. registrable (fst e) \<longrightarrow>
        sym_name (fst e) = X \<or> resolved_address g (fst e) = A \<longrightarrow>
        sym_name (fst e) = X \<and> resolved_address g (fst e) = A \<and> snd e = S \<Longrightarrow>
    (codeinst_in_flight st X = Some h \<and>
       (\<exists>e \<in> set syms. registrable (fst e) \<and> sym_name (fst e) = X)) \<or>
    (map_of (cimap st) A = Some (S, h) \<and> codeinst_in_flight st X = None) \<Longrightarrow>
    map_of (cimap st') A = Some (S, h)"
proof (induction syms arbitrary: st b)
  case Nil
  then show ?case by simp
next
  case (Cons sz syms)
  obtain s z where sz: "sz = (s, z)" by (cases sz)
  from Cons.prems(2) have rest:
    "\<forall>e \<in> set syms. registrable (fst e) \<longrightarrow>
        sym_name (fst e) = X \<or> resolved_address g (fst e) = A \<longrightarrow>
        sym_name (fst e) = X \<and> resolved_address g (fst e) = A \<and> snd e = S"
    by simp
  show ?case
  proof (cases "registrable s")
    case False
    from register_symbol_skip [OF False, of env g oc z "(st, b)"] Cons.prems(1) sz
    have run: "register_symbols env g oc syms (st, b) = Inr (st', b')" by simp
    have "(codeinst_in_flight st X = Some h \<and>
             (\<exists>e \<in> set syms. registrable (fst e) \<and> sym_name (fst e) = X)) \<or>
          (map_of (cimap st) A = Some (S, h) \<and> codeinst_in_flight st X = None)"
    proof (rule disjE [OF Cons.prems(3)])
      assume a: "codeinst_in_flight st X = Some h \<and>
                 (\<exists>e \<in> set (sz # syms). registrable (fst e) \<and> sym_name (fst e) = X)"
      then obtain e where "e \<in> set (sz # syms)" "registrable (fst e)" "sym_name (fst e) = X"
        by blast
      with False sz have "e \<in> set syms" by auto
      with a \<open>registrable (fst e)\<close> \<open>sym_name (fst e) = X\<close> show ?thesis by blast
    next
      assume "map_of (cimap st) A = Some (S, h) \<and> codeinst_in_flight st X = None"
      then show ?thesis by blast
    qed
    from Cons.IH [OF run rest this] show ?thesis .
  next
    case True
    from register_symbol_take [OF True lock, of g oc z st b]
    obtain st1 where step: "register_symbol env g oc (s, z) (st, b) = Inr (st1, True)"
      and fl: "codeinst_in_flight st1 = (codeinst_in_flight st)(sym_name s := None)"
      and cm: "cimap st1 = (case codeinst_in_flight st (sym_name s) of
                          None \<Rightarrow> cimap st
                        | Some c \<Rightarrow> rev_map_assign (cimap st) (resolved_address g s) (z, c))"
      by blast
    from step Cons.prems(1) sz
    have run: "register_symbols env g oc syms (st1, True) = Inr (st', b')" by simp
    from Cons.prems(2) have "registrable (fst sz) \<longrightarrow>
        sym_name (fst sz) = X \<or> resolved_address g (fst sz) = A \<longrightarrow>
        sym_name (fst sz) = X \<and> resolved_address g (fst sz) = A \<and> snd sz = S"
      by simp
    with True sz have here:
      "sym_name s = X \<or> resolved_address g s = A \<Longrightarrow>
         sym_name s = X \<and> resolved_address g s = A \<and> z = S"
      by simp
    have "(codeinst_in_flight st1 X = Some h \<and>
             (\<exists>e \<in> set syms. registrable (fst e) \<and> sym_name (fst e) = X)) \<or>
          (map_of (cimap st1) A = Some (S, h) \<and> codeinst_in_flight st1 X = None)"
    proof (cases "sym_name s = X \<or> resolved_address g s = A")
      case True
      with here have eqs: "sym_name s = X" "resolved_address g s = A" "z = S" by simp_all
      have "map_of (cimap st1) A = Some (S, h) \<and> codeinst_in_flight st1 X = None"
      proof (rule disjE [OF Cons.prems(3)])
        assume "codeinst_in_flight st X = Some h \<and>
                (\<exists>e \<in> set (sz # syms). registrable (fst e) \<and> sym_name (fst e) = X)"
        then have "codeinst_in_flight st X = Some h" by (rule conjunct1)
        with cm fl eqs show ?thesis by (simp add: map_of_rev_map_assign)
      next
        assume "map_of (cimap st) A = Some (S, h) \<and> codeinst_in_flight st X = None"
        with cm fl eqs show ?thesis by simp
      qed
      then show ?thesis by (rule disjI2)
    next
      case False
      then have ne: "sym_name s \<noteq> X" "resolved_address g s \<noteq> A" by simp_all
      from cm ne have keep: "map_of (cimap st1) A = map_of (cimap st) A"
        by (simp add: map_of_rev_map_assign split: option.splits)
      from fl ne have keep2: "codeinst_in_flight st1 X = codeinst_in_flight st X" by simp
      show ?thesis
      proof (rule disjE [OF Cons.prems(3)])
        assume a: "codeinst_in_flight st X = Some h \<and>
                 (\<exists>e \<in> set (sz # syms). registrable (fst e) \<and> sym_name (fst e) = X)"
        then obtain e where "e \<in> set (sz # syms)" "registrable (fst e)" "sym_name (fst e) = X"
          by blast
        with ne sz have "e \<in> set syms" by auto
        with a keep2 \<open>registrable (fst e)\<close> \<open>sym_name (fst e) = X\<close> show ?thesis by auto
      next
        assume "map_of (cimap st) A = Some (S, h) \<and> codeinst_in_flight st X = None"
        with keep keep2 show ?thesis by simp
      qed
    qed
    from Cons.IH [OF run rest this] show ?thesis .
  qed
qed

lemma register_symbols_cimap_ordered:
  assumes lock: "lock_profile_wr env"
  shows "register_symbols env g oc syms (st, b) = Inr (st', b') \<Longrightarrow>
    rev_map_ordered (cimap st) \<Longrightarrow> rev_map_ordered (cimap st')"
proof (induction syms arbitrary: st b)
  case Nil
  then show ?case by simp
next
  case (Cons sz syms)
  obtain s z where sz: "sz = (s, z)" by (cases sz)
  show ?case
  proof (cases "registrable s")
    case False
    from register_symbol_skip [OF False, of env g oc z "(st, b)"] Cons.prems(1) sz
    have run: "register_symbols env g oc syms (st, b) = Inr (st', b')" by simp
    from Cons.IH [OF run Cons.prems(2)] show ?thesis .
  next
    case True
    from register_symbol_take [OF True lock, of g oc z st b]
    obtain st1 where step: "register_symbol env g oc (s, z) (st, b) = Inr (st1, True)"
      and cm: "cimap st1 = (case codeinst_in_flight st (sym_name s) of
                          None \<Rightarrow> cimap st
                        | Some c \<Rightarrow> rev_map_assign (cimap st) (resolved_address g s) (z, c))"
      by blast
    from step Cons.prems(1) sz
    have run: "register_symbols env g oc syms (st1, True) = Inr (st', b')" by simp
    from cm Cons.prems(2) have "rev_map_ordered (cimap st1)"
      by (simp add: rev_map_ordered_assign split: option.splits)
    from Cons.IH [OF run this] show ?thesis .
  qed
qed

lemma lookupCodeInstance_in_range:
  assumes ord: "rev_map_ordered (cimap st)"
    and entry: "map_of (cimap st) A = Some (S, h)"
    and lo: "A \<le> p" and hi: "unat p < unat A + unat S" and nowrap: "unat A + unat S < 2 ^ 64"
    and nokey: "\<forall>(k, e) \<in> set (cimap st). \<not> (A < k \<and> k \<le> p)"
  shows "lookupCodeInstance st p = Some h"
proof -
  from ord entry have mem: "(A, (S, h)) \<in> set (cimap st)"
    by (simp add: rev_map_ordered_map_of)
  from nokey have "\<forall>k' \<in> fst ` set (cimap st). \<not> (A < k' \<and> k' \<le> p)" by auto
  from lower_bound_greatest [OF ord mem lo this]
  have lb: "lower_bound (cimap st) p = Some (A, (S, h))" .
  from nowrap have "unat (A + S) = unat A + unat S"
    by (simp add: unat_add_lem [THEN iffD1])
  with hi have "p < A + S" by (simp add: word_less_nat_alt)
  with lb show ?thesis by (simp add: lookupCodeInstance_def)
qed

lemma lookupCodeInstance_outside:
  assumes "\<forall>(k, sz, c) \<in> set (cimap st). \<not> (k \<le> p \<and> unat p < unat k + unat sz)"
  shows "lookupCodeInstance st p = None"
proof (cases "lower_bound (cimap st) p")
  case None
  then show ?thesis by (simp add: lookupCodeInstance_def)
next
  case (Some e)
  obtain k sz c where e: "e = (k, sz, c)" by (cases e)
  from Some e lower_bound_Some_D [of "cimap st" p k "(sz, c)"]
  have mem: "(k, sz, c) \<in> set (cimap st)" and le: "k \<le> p" by simp_all
  from assms mem le have out: "\<not> unat p < unat k + unat sz" by auto
  have "\<not> p < k + sz"
  proof
    assume lt: "p < k + sz"
    with le have "k \<le> k + sz" by simp
    then have "unat (k + sz) = unat k + unat sz"
      by (simp add: no_olen_add_nat unat_add_lem [THEN iffD1])
    with lt out show False by (simp add: word_less_nat_alt)
  qed
  with Some e show ?thesis by (simp add: lookupCodeInstance_def)
qed
lemma registerJITObject_cimap:
  assumes lock: "lock_profile_wr env"
    and anyf: "list_ex (\<lambda>s. sym_type s = ST_Function) (obj_symbols Object)"
  shows "\<exists>st1 st2 hassection st'.
           codeinst_in_flight st1 = codeinst_in_flight st \<and> cimap st1 = cimap st \<and>
           register_symbols env g (next_image st) (computeSymbolSizes env Object) (st1, False) =
             Inr (st2, hassection) \<and>
           registerJITObject env st Object g = Inr st' \<and> cimap st' = cimap st2"
proof -
  define st1 where "st1 = new_LazyObjectInfo env st Object"
  from register_symbols_returns [OF lock, of g "next_image st" "computeSymbolSizes env Object" st1 False]
  obtain st2 hassection where run:
    "register_symbols env g (next_image st) (computeSymbolSizes env Object) (st1, False) =
       Inr (st2, hassection)" by blast
  have fields: "codeinst_in_flight st1 = codeinst_in_flight st" "cimap st1 = cimap st"
    by (simp_all add: st1_def new_LazyObjectInfo_def Let_def)
  have "registerJITObject env st Object g =
          (if \<not> hassection then Inr (st2\<lparr>images := (images st2)(next_image st := None)\<rparr>)
           else Inr st2)"
    using anyf run [unfolded st1_def]
    by (simp add: registerJITObject_def Let_def)
  then have "\<exists>st'. registerJITObject env st Object g = Inr st' \<and> cimap st' = cimap st2"
    by (cases hassection) simp_all
  with fields run show ?thesis by blast
qed

text \<open>
  C1: a code instance is recorded as pending under the mangled name of \<open>name\<close>, and then
  an object is registered (the thread gets the lock) in which a function symbol in a
  text section has that name, resolves to the address \<open>A\<close> and has the size \<open>S\<close>, with
  \<open>A + S\<close> below \<open>2^64\<close>; every other function in a text section that has this name or
  this address agrees on name, address and size. Then the registration returns, and
  in the registry it leaves, \<^verbatim>\<open>lookupCodeInstance(p)\<close> is that code instance for every
  \<open>p\<close> with \<open>A \<le> p < A + S\<close> such that no registered start address lies in \<open>(A, p]\<close>,
  and is none for every \<open>p\<close> outside all registered ranges \<open>[start, start + size)\<close>.
  The address \<open>A + S\<close> is such a \<open>p\<close> only when no other range contains it.
\<close>

theorem pending_symbol_is_found_in_its_range:
  assumes lock: "lock_profile_wr env"
    and ord: "rev_map_ordered (cimap st)"
    and inobj: "symbol \<in> set (obj_symbols Object)"
    and insyms: "(symbol, S) \<in> set (computeSymbolSizes env Object)"
    and reg: "registrable symbol"
    and name: "sym_name symbol = mangle env name"
    and addr: "resolved_address getLoadAddress symbol = A"
    and others: "\<forall>(s, z) \<in> set (computeSymbolSizes env Object). registrable s \<longrightarrow>
        sym_name s = mangle env name \<or> resolved_address getLoadAddress s = A \<longrightarrow>
        sym_name s = mangle env name \<and> resolved_address getLoadAddress s = A \<and> z = S"
    and nowrap: "unat A + unat S < 2 ^ 64"
  shows "\<exists>st'. registerJITObject env (add_code_in_flight env st name h) Object getLoadAddress
                  = Inr st' \<and>
           (\<forall>p. A \<le> p \<and> unat p < unat A + unat S \<and>
                 (\<forall>(k, e) \<in> set (cimap st'). \<not> (A < k \<and> k \<le> p)) \<longrightarrow>
                 lookupCodeInstance st' p = Some h) \<and>
           (\<forall>p. (\<forall>(k, sz, c) \<in> set (cimap st'). \<not> (k \<le> p \<and> unat p < unat k + unat sz)) \<longrightarrow>
                 lookupCodeInstance st' p = None)"
proof -
  define st0 where "st0 = add_code_in_flight env st name h"
  from inobj reg have anyf: "list_ex (\<lambda>s. sym_type s = ST_Function) (obj_symbols Object)"
    by (auto simp add: list_ex_iff registrable_def)
  from registerJITObject_cimap [OF lock anyf, of st0 getLoadAddress]
  obtain st1 st2 hassection st' where
    fl: "codeinst_in_flight st1 = codeinst_in_flight st0" and cm: "cimap st1 = cimap st0"
    and run: "register_symbols env getLoadAddress (next_image st0)
                (computeSymbolSizes env Object) (st1, False) = Inr (st2, hassection)"
    and res: "registerJITObject env st0 Object getLoadAddress = Inr st'"
    and cm': "cimap st' = cimap st2"
    by blast
  have pending: "codeinst_in_flight st1 (mangle env name) = Some h"
    by (simp add: fl st0_def add_code_in_flight_def)
  have ord1: "rev_map_ordered (cimap st1)"
    using ord by (simp add: cm st0_def add_code_in_flight_def)
  from insyms reg name
  have "\<exists>e \<in> set (computeSymbolSizes env Object).
          registrable (fst e) \<and> sym_name (fst e) = mangle env name"
    by force
  with pending have start:
    "(codeinst_in_flight st1 (mangle env name) = Some h \<and>
      (\<exists>e \<in> set (computeSymbolSizes env Object).
          registrable (fst e) \<and> sym_name (fst e) = mangle env name)) \<or>
     (map_of (cimap st1) A = Some (S, h) \<and> codeinst_in_flight st1 (mangle env name) = None)"
    by blast
  from others have others':
    "\<forall>e \<in> set (computeSymbolSizes env Object). registrable (fst e) \<longrightarrow>
        sym_name (fst e) = mangle env name \<or> resolved_address getLoadAddress (fst e) = A \<longrightarrow>
        sym_name (fst e) = mangle env name \<and> resolved_address getLoadAddress (fst e) = A \<and>
        snd e = S"
    by (simp add: case_prod_beta)
  from register_symbols_cimap_entry [OF lock run others' start]
  have entry: "map_of (cimap st') A = Some (S, h)" by (simp add: cm')
  from register_symbols_cimap_ordered [OF lock run ord1]
  have ord': "rev_map_ordered (cimap st')" by (simp add: cm')
  have inside: "\<forall>p. A \<le> p \<and> unat p < unat A + unat S \<and>
                 (\<forall>(k, e) \<in> set (cimap st'). \<not> (A < k \<and> k \<le> p)) \<longrightarrow>
                 lookupCodeInstance st' p = Some h"
    using lookupCodeInstance_in_range [OF ord' entry _ _ nowrap] by blast
  have outside: "\<forall>p. (\<forall>(k, sz, c) \<in> set (cimap st'). \<not> (k \<le> p \<and> unat p < unat k + unat sz)) \<longrightarrow>
                 lookupCodeInstance st' p = None"
    using lookupCodeInstance_outside by blast
  from res inside outside show ?thesis unfolding st0_def by blast
qed

lemmas example_defs =
  plain_environment_def empty_registry_def text_section_def function_X_def function_Y_def
  one_function_object_def two_function_object_def data_only_object_def

theorem pending_symbol_is_found_in_its_range_witness:
  "\<exists>st'. registerJITObject plain_environment
            (add_code_in_flight plain_environment empty_registry ''X'' 7)
            one_function_object (\<lambda>secName. 0x7000) = Inr st' \<and>
         lookupCodeInstance st' 0x8000 = Some 7 \<and>
         lookupCodeInstance st' 0x800F = Some 7 \<and>
         lookupCodeInstance st' 0x8010 = None \<and>
         lookupCodeInstance st' 0x7FFF = None"
proof -
  have ev: "registerJITObject plain_environment
            (add_code_in_flight plain_environment empty_registry ''X'' 7)
            one_function_object (\<lambda>secName. 0x7000) = Inr st' \<Longrightarrow> cimap st' = [(0x8000, (16, 7))]"
    for st'
    by (auto simp add: registerJITObject_def new_LazyObjectInfo_def register_symbol_def add_code_in_flight_def
          jl_profile_atomic_def example_defs Let_def)
  from pending_symbol_is_found_in_its_range
    [of plain_environment empty_registry function_X one_function_object 16 "''X''"
        "\<lambda>secName. 0x7000" "0x8000" 7]
  obtain st' where
    res: "registerJITObject plain_environment
            (add_code_in_flight plain_environment empty_registry ''X'' 7)
            one_function_object (\<lambda>secName. 0x7000) = Inr st'"
    and inside: "\<And>p. 0x8000 \<le> p \<Longrightarrow> unat p < unat (0x8000 :: 64 word) + unat (16 :: 64 word) \<Longrightarrow>
                 (\<forall>(k, e) \<in> set (cimap st'). \<not> (0x8000 < k \<and> k \<le> p)) \<Longrightarrow>
                 lookupCodeInstance st' p = Some 7"
    and outside: "\<And>p. (\<forall>(k, sz, c) \<in> set (cimap st'). \<not> (k \<le> p \<and> unat p < unat k + unat sz)) \<Longrightarrow>
                 lookupCodeInstance st' p = None"
    by (auto simp add: example_defs rev_map_ordered_def registrable_def resolved_address_def)
  from ev [OF res] have cm: "cimap st' = [(0x8000, (16, 7))]" .
  have "lookupCodeInstance st' 0x8000 = Some 7" by (rule inside) (simp_all add: cm)
  moreover have "lookupCodeInstance st' 0x800F = Some 7" by (rule inside) (simp_all add: cm)
  moreover have "lookupCodeInstance st' 0x8010 = None" by (rule outside) (simp add: cm)
  moreover have "lookupCodeInstance st' 0x7FFF = None" by (rule outside) (simp add: cm)
  ultimately show ?thesis using res by blast
qed

theorem lookup_at_end_of_range_finds_next_function_counterexample:
  "\<exists>st'. registerJITObject plain_environment
            (add_code_in_flight plain_environment
               (add_code_in_flight plain_environment empty_registry ''X'' 7) ''Y'' 8)
            two_function_object (\<lambda>secName. 0x7000) = Inr st' \<and>
         cimap st' = [(0x8010, (16, 8)), (0x8000, (16, 7))] \<and>
         lookupCodeInstance st' (0x8000 + 16) = Some 8"
  by (simp add: registerJITObject_def new_LazyObjectInfo_def register_symbol_def add_code_in_flight_def
        jl_profile_atomic_def example_defs Let_def lookupCodeInstance_def)

end
